theory Spec2Isabelle
  imports Complex_Main "HOL-Library.Monad_Syntax" "HOL-Library.Signed_Division"
begin

section \<open>The packed memory array of the OrderedVector repository\<close>

text \<open>
  The repository holds several revisions of one class template: \<^verbatim>\<open>OrderedVector\<close>
  (\<^verbatim>\<open>OrderedVector.h\<close>, the revision the driver \<^verbatim>\<open>file_handler.cpp\<close> includes) and
  \<^verbatim>\<open>packed_memory_array\<close> (\<^verbatim>\<open>packed_memory_array.h\<close>, the latest revision, whose \<^verbatim>\<open>scan\<close>
  carries an accumulated count and whose \<^verbatim>\<open>insert\<close> shifts towards the closest gap).
  The definitions below follow \<^verbatim>\<open>packed_memory_array.h\<close> function by function; the
  functions of \<^verbatim>\<open>OrderedVector.h\<close> that differ are embedded under the prefix \<open>ov_\<close>.

  Conventions of the embedding.
  \<^item> The backing array \<^verbatim>\<open>std::vector<std::optional<T>>\<close> is a list of optional values;
    indices are C++ \<^verbatim>\<open>int\<close>s, modelled as mathematical integers (the model is the code
    as long as the capacity stays below \<open>2^31\<close>).
  \<^item> Every function returns an \<open>option\<close>: \<open>None\<close> stands for a run that leaves the defined
    behaviour of the C++ (an access outside the vector, \<^verbatim>\<open>value()\<close> of an empty slot, a
    division by zero, a loop that never returns).
  \<^item> The comparator is the parameter \<open>lt\<close>, the template parameter \<^verbatim>\<open>chunk_size\<close> the
    parameter \<open>c\<close>.
  \<^item> The \<^verbatim>\<open>float\<close> quantities (densities, thresholds, the running position of
    \<^verbatim>\<open>rearrange_items\<close>) are modelled as exact rationals.
\<close>

subsection \<open>Comparator helpers\<close>

definition less_cmp :: "('a \<Rightarrow> 'a \<Rightarrow> bool) \<Rightarrow> 'a \<Rightarrow> 'a \<Rightarrow> bool" where
  "less_cmp lt a b = lt a b"

definition greater_cmp :: "('a \<Rightarrow> 'a \<Rightarrow> bool) \<Rightarrow> 'a \<Rightarrow> 'a \<Rightarrow> bool" where
  "greater_cmp lt a b = less_cmp lt b a"

definition equal_cmp :: "('a \<Rightarrow> 'a \<Rightarrow> bool) \<Rightarrow> 'a \<Rightarrow> 'a \<Rightarrow> bool" where
  "equal_cmp lt a b = (\<not> less_cmp lt a b \<and> \<not> greater_cmp lt a b)"

definition less_equal_cmp :: "('a \<Rightarrow> 'a \<Rightarrow> bool) \<Rightarrow> 'a \<Rightarrow> 'a \<Rightarrow> bool" where
  "less_equal_cmp lt a b = (less_cmp lt a b \<or> \<not> greater_cmp lt a b)"

subsection \<open>The backing array\<close>

type_synonym 'a pma = "'a option list"

text \<open>The constructor: \<^verbatim>\<open>items(chunk_size * 2)\<close>, all slots empty.\<close>

definition empty_pma :: "nat \<Rightarrow> 'a pma" where
  "empty_pma c = replicate (c * 2) None"

text \<open>\<^verbatim>\<open>items[i]\<close> as a read and as a write; outside the vector the behaviour is undefined.\<close>

definition slot :: "'a pma \<Rightarrow> int \<Rightarrow> 'a option option" where
  "slot items i = (if 0 \<le> i \<and> i < int (length items) then Some (items ! nat i) else None)"

definition put :: "'a pma \<Rightarrow> int \<Rightarrow> 'a option \<Rightarrow> 'a pma option" where
  "put items i v = (if 0 \<le> i \<and> i < int (length items) then Some (items[nat i := v]) else None)"

text \<open>
  \<^verbatim>\<open>i < items.size()\<close> compares an \<^verbatim>\<open>int\<close> with a \<^verbatim>\<open>size_t\<close>: the \<^verbatim>\<open>int\<close> is converted to
  unsigned, so a negative \<open>i\<close> is not below the size.
\<close>

definition below_size :: "int \<Rightarrow> 'a pma \<Rightarrow> bool" where
  "below_size i items = (0 \<le> i \<and> i < int (length items))"

text \<open>The occupied values, left to right.\<close>

primrec contents :: "'a pma \<Rightarrow> 'a list" where
  "contents [] = []"
| "contents (x # xs) = (case x of None \<Rightarrow> contents xs | Some v \<Rightarrow> v # contents xs)"

subsection \<open>\<^verbatim>\<open>index_of\<close>: binary search that skips empty slots\<close>

text \<open>\<^verbatim>\<open>for (; mid <= high && !items[mid]; ++mid);\<close>\<close>

function skip_empty_right :: "'a pma \<Rightarrow> int \<Rightarrow> int \<Rightarrow> int option" where
  "skip_empty_right items mid high =
     (if mid \<le> high then
        (case slot items mid of
           None \<Rightarrow> None
         | Some None \<Rightarrow> skip_empty_right items (mid + 1) high
         | Some (Some v) \<Rightarrow> Some mid)
      else Some mid)"
  by pat_completeness auto
termination
  by (relation "measure (\<lambda>(items, mid, high). nat (high + 1 - mid))") auto

text \<open>\<^verbatim>\<open>for (; mid >= low && !items[mid]; --mid);\<close>\<close>

function skip_empty_left :: "'a pma \<Rightarrow> int \<Rightarrow> int \<Rightarrow> int option" where
  "skip_empty_left items mid low =
     (if mid \<ge> low then
        (case slot items mid of
           None \<Rightarrow> None
         | Some None \<Rightarrow> skip_empty_left items (mid - 1) low
         | Some (Some v) \<Rightarrow> Some mid)
      else Some mid)"
  by pat_completeness auto
termination
  by (relation "measure (\<lambda>(items, mid, low). nat (mid + 1 - low))") auto

lemma skip_empty_right_ge: "skip_empty_right items mid high = Some r \<Longrightarrow> mid \<le> r"
proof (induction items mid high rule: skip_empty_right.induct)
  case (1 items mid high)
  show ?case
  proof (cases "mid \<le> high")
    case True
    with "1.prems" "1.IH" show ?thesis
      by (auto split: option.splits)
  next
    case False
    with "1.prems" show ?thesis by simp
  qed
qed

lemma skip_empty_left_le: "skip_empty_left items mid low = Some r \<Longrightarrow> r \<le> mid"
proof (induction items mid low rule: skip_empty_left.induct)
  case (1 items mid low)
  show ?case
  proof (cases "mid \<ge> low")
    case True
    with "1.prems" "1.IH" show ?thesis
      by (auto split: option.splits)
  next
    case False
    with "1.prems" show ?thesis by simp
  qed
qed

declare skip_empty_right.simps [simp del] skip_empty_left.simps [simp del]

text \<open>
  The \<^verbatim>\<open>while (low <= high)\<close> loop of \<^verbatim>\<open>index_of\<close> and its exit
  \<^verbatim>\<open>return low == items.size() ? low - 1 : low\<close>.
\<close>

function index_of_loop :: "('a \<Rightarrow> 'a \<Rightarrow> bool) \<Rightarrow> 'a pma \<Rightarrow> 'a \<Rightarrow> int \<Rightarrow> int \<Rightarrow> int option" where
  "index_of_loop lt items t low high =
     (if low \<le> high then
        (case skip_empty_right items (low + (high - low) div 2) high of
           None \<Rightarrow> None
         | Some mid1 \<Rightarrow>
            (case (if mid1 > high then skip_empty_left items (low + (high - low) div 2) low
                   else Some mid1) of
               None \<Rightarrow> None
             | Some mid \<Rightarrow>
                if mid1 > high \<and> mid < low then Some low
                else
                  (case slot items mid of
                     None \<Rightarrow> None
                   | Some None \<Rightarrow> None
                   | Some (Some v) \<Rightarrow>
                       if less_cmp lt v t then index_of_loop lt items t (mid + 1) high
                       else if greater_cmp lt v t then index_of_loop lt items t low (mid - 1)
                       else Some mid)))
      else Some (if low = int (length items) then low - 1 else low))"
  by pat_completeness auto
termination
proof (relation "measure (\<lambda>(lt, items, t, low, high). nat (high + 1 - low))", goal_cases)
  case 1
  show ?case by simp
next
  case (2 lt items t low high mid1 mid ov v)
  from 2 have "low \<le> mid"
    using skip_empty_right_ge [of items "low + (high - low) div 2" high mid1]
    by (auto split: if_splits)
  with 2 show ?case by simp
next
  case (3 lt items t low high mid1 mid ov v)
  have "low + (high - low) div 2 \<le> high" using 3(1) by linarith
  with 3 have "mid \<le> high"
    using skip_empty_left_le [of items "low + (high - low) div 2" low mid]
    by (auto split: if_splits)
  with 3 show ?case by simp
qed

declare index_of_loop.simps [simp del]

definition index_of :: "('a \<Rightarrow> 'a \<Rightarrow> bool) \<Rightarrow> 'a pma \<Rightarrow> 'a \<Rightarrow> int option" where
  "index_of lt items t = index_of_loop lt items t 0 (int (length items) - 1)"


subsection \<open>\<^verbatim>\<open>successor\<close>\<close>

text \<open>\<^verbatim>\<open>for (; i < items.size() && (!items[i] || less_equal(items[i].value(), t)); ++i);\<close>\<close>

function successor_loop :: "('a \<Rightarrow> 'a \<Rightarrow> bool) \<Rightarrow> 'a pma \<Rightarrow> 'a \<Rightarrow> int \<Rightarrow> int option" where
  "successor_loop lt items t i =
     (if below_size i items then
        (case slot items i of
           None \<Rightarrow> None
         | Some None \<Rightarrow> successor_loop lt items t (i + 1)
         | Some (Some v) \<Rightarrow>
             if less_equal_cmp lt v t then successor_loop lt items t (i + 1) else Some i)
      else Some i)"
  by pat_completeness auto
termination
  by (relation "measure (\<lambda>(lt, items, t, i). nat (int (length items) - i))")
    (auto simp: below_size_def)

declare successor_loop.simps [simp del]

definition successor :: "('a \<Rightarrow> 'a \<Rightarrow> bool) \<Rightarrow> 'a pma \<Rightarrow> 'a \<Rightarrow> 'a option" where
  "successor lt items t =
     do {
       i0 \<leftarrow> index_of lt items t;
       i \<leftarrow> successor_loop lt items t i0;
       if \<not> below_size i items then Some t
       else (case slot items i of Some (Some v) \<Rightarrow> Some v | _ \<Rightarrow> None)
     }"

subsection \<open>Counting, heights and thresholds\<close>

text \<open>\<^verbatim>\<open>std::count_if(items.begin() + begin, items.begin() + end, ...)\<close>\<close>

definition count_items :: "'a pma \<Rightarrow> int \<Rightarrow> int \<Rightarrow> int option" where
  "count_items items b e =
     (if 0 \<le> b \<and> b \<le> e \<and> e \<le> int (length items)
      then Some (int (length (filter (\<lambda>x. x \<noteq> None) (take (nat (e - b)) (drop (nat b) items)))))
      else None)"

text \<open>The truncated binary logarithm: \<^verbatim>\<open>(int) std::log2(x)\<close> for \<open>x \<ge> 1\<close>.\<close>

fun ilog2 :: "nat \<Rightarrow> nat" where
  "ilog2 n = (if n < 2 then 0 else Suc (ilog2 (n div 2)))"

declare ilog2.simps [simp del]

text \<open>
  \<^verbatim>\<open>tree_height() = std::log2(items.size() / chunk_size)\<close>, an integer division first.
  A zero chunk size and the logarithm of zero are outside the defined behaviour.
\<close>

definition tree_height :: "nat \<Rightarrow> 'a pma \<Rightarrow> int option" where
  "tree_height c items =
     (if c = 0 \<or> length items div c = 0 then None
      else Some (int (ilog2 (length items div c))))"

text \<open>
  \<^verbatim>\<open>*lower = 0.5f - 0.25f * ((float)depth / tree_height())\<close> and
  \<^verbatim>\<open>*upper = 0.75f + 0.25f * ((float)depth / tree_height())\<close>.
  With height zero the quotient is a floating-point infinity or NaN, which the rationals do
  not have: that run is \<open>None\<close>. A constructed array has height at least one.
\<close>

definition get_thresholds :: "nat \<Rightarrow> 'a pma \<Rightarrow> int \<Rightarrow> (rat \<times> rat) option" where
  "get_thresholds c items depth =
     do {
       h \<leftarrow> tree_height c items;
       if h = 0 then None
       else Some (1 / 2 - 1 / 4 * (of_int depth / of_int h),
                  3 / 4 + 1 / 4 * (of_int depth / of_int h))
     }"

subsection \<open>Gathering and redistributing the items of a window\<close>

text \<open>
  \<^verbatim>\<open>get_items(begin, end)\<close> moves the occupied values of the window into a buffer, in
  order, and resets their slots. The array is passed back next to the buffer.
\<close>

function get_items_loop :: "'a pma \<Rightarrow> int \<Rightarrow> int \<Rightarrow> 'a list \<Rightarrow> ('a list \<times> 'a pma) option" where
  "get_items_loop items i e buffer =
     (if i < e then
        (case slot items i of
           None \<Rightarrow> None
         | Some None \<Rightarrow> get_items_loop items (i + 1) e buffer
         | Some (Some v) \<Rightarrow>
             (case put items i None of
                None \<Rightarrow> None
              | Some items' \<Rightarrow> get_items_loop items' (i + 1) e (buffer @ [v])))
      else Some (buffer, items))"
  by pat_completeness auto
termination
  by (relation "measure (\<lambda>(items, i, e, buffer). nat (e - i))") auto

declare get_items_loop.simps [simp del]

definition get_items :: "'a pma \<Rightarrow> int \<Rightarrow> int \<Rightarrow> ('a list \<times> 'a pma) option" where
  "get_items items b e = get_items_loop items b e []"

text \<open>\<^verbatim>\<open>std::round\<close>: to the nearest integer, halves away from zero.\<close>

definition cround :: "rat \<Rightarrow> int" where
  "cround x = (if 0 \<le> x then \<lfloor>x + 1 / 2\<rfloor> else - \<lfloor>- x + 1 / 2\<rfloor>)"

text \<open>
  The loop of \<^verbatim>\<open>rearrange_items\<close>:
  \<^verbatim>\<open>items[begin + (int)std::round(pos)] = std::move(item); pos += step;\<close>
\<close>

primrec rearrange_loop :: "'a pma \<Rightarrow> int \<Rightarrow> rat \<Rightarrow> rat \<Rightarrow> 'a list \<Rightarrow> 'a pma option" where
  "rearrange_loop items b step pos [] = Some items"
| "rearrange_loop items b step pos (item # buffer) =
     (case put items (b + cround pos) (Some item) of
        None \<Rightarrow> None
      | Some items' \<Rightarrow> rearrange_loop items' b step (pos + step) buffer)"

text \<open>
  \<^verbatim>\<open>step = (float)k / (float)n\<close>. With an empty buffer the C++ quotient is an infinity that
  is never used, since the loop body does not run; the model's quotient is then unused too.
\<close>

definition rearrange_items :: "'a pma \<Rightarrow> int \<Rightarrow> int \<Rightarrow> 'a list \<Rightarrow> 'a pma option" where
  "rearrange_items items b e buffer =
     (let k = e - b;
          n = int (length buffer);
          step = (of_int k :: rat) / of_int n
      in rearrange_loop items b step 0 buffer)"

text \<open>\<^verbatim>\<open>items.resize(n)\<close>: cut, or extend with empty slots.\<close>

definition resize :: "'a pma \<Rightarrow> nat \<Rightarrow> 'a pma" where
  "resize items n = take n items @ replicate (n - length items) None"

subsection \<open>\<^verbatim>\<open>scan\<close>: the density manager\<close>

text \<open>
  The window is \<open>[b, e)\<close>; \<^verbatim>\<open>begin / depth_block_size\<close> and \<^verbatim>\<open>% 2\<close> are the truncating
  operations of C++ on \<^verbatim>\<open>int\<close>, a zero width divides by zero.
\<close>

function scan :: "nat \<Rightarrow> 'a pma \<Rightarrow> int \<Rightarrow> int \<Rightarrow> int \<Rightarrow> int \<Rightarrow> 'a pma option" where
  "scan c items b e accum_count depth =
     (let depth_block_size = e - b in
      if depth_block_size = 0 then None
      else
        let is_left = ((b sdiv depth_block_size) smod 2 = 0);
            sibling_begin = (if is_left then e else b - depth_block_size);
            sibling_end = sibling_begin + depth_block_size
        in
          (case count_items items sibling_begin sibling_end of
             None \<Rightarrow> None
           | Some sibling_count \<Rightarrow>
              (case get_thresholds c items depth of
                 None \<Rightarrow> None
               | Some (lower, upper) \<Rightarrow>
                  let density = (of_int (accum_count + sibling_count) :: rat)
                                  / of_int (depth_block_size * 2);
                      parent_begin = (if is_left then b else sibling_begin);
                      parent_end = (if is_left then sibling_end else e)
                  in
                    if lower \<le> density \<and> density \<le> upper then
                      (case get_items items parent_begin parent_end of
                         None \<Rightarrow> None
                       | Some (buffer, items1) \<Rightarrow>
                           rearrange_items items1 parent_begin parent_end buffer)
                    else if depth = 0 then
                      (case get_items items 0 (int (length items)) of
                         None \<Rightarrow> None
                       | Some (buffer, items1) \<Rightarrow>
                           let items2 =
                                 (if density > upper then resize items1 (length items1 * 2)
                                  else if density < lower \<and> length items1 > c * 2
                                    then resize items1 (length items1 div 2)
                                  else items1)
                           in if buffer \<noteq> []
                              then rearrange_items items2 0 (int (length items2)) buffer
                              else Some items2)
                    else scan c items parent_begin parent_end
                           (accum_count + sibling_count) (depth - 1))))"
  by pat_completeness auto
termination
proof (relation "measure (\<lambda>(c, items, b, e, accum_count, depth).
                   nat (2 * int (length items) + 1 - (e - b)))", goal_cases)
  case 1
  show ?case by simp
next
  case (2 c items b e accum_count depth w is_left sb se sc th lower upper density pb pe)
  from 2(6) 2(4) 2(5) have "0 \<le> w" "w \<le> int (length items)"
    by (auto simp: count_items_def split: if_splits)
  moreover have "pe - pb = 2 * w"
    using 2(1,3,4,5,10,11) by auto
  ultimately show ?case using 2(1,2) by auto
qed

declare scan.simps [simp del]

subsection \<open>Local insertion\<close>

text \<open>\<^verbatim>\<open>std::swap(items[i], items[j])\<close>\<close>

definition swap_slots :: "'a pma \<Rightarrow> int \<Rightarrow> int \<Rightarrow> 'a pma option" where
  "swap_slots items i j =
     do {
       x \<leftarrow> slot items i;
       y \<leftarrow> slot items j;
       items1 \<leftarrow> put items i y;
       put items1 j x
     }"

text \<open>\<^verbatim>\<open>for (; to > from; --to) std::swap(items[to], items[to - 1]);\<close>\<close>

function shift_right :: "'a pma \<Rightarrow> int \<Rightarrow> int \<Rightarrow> 'a pma option" where
  "shift_right items from to =
     (if to > from then
        (case swap_slots items to (to - 1) of
           None \<Rightarrow> None
         | Some items1 \<Rightarrow> shift_right items1 from (to - 1))
      else Some items)"
  by pat_completeness auto
termination
  by (relation "measure (\<lambda>(items, from, to). nat (to - from))") auto

text \<open>\<^verbatim>\<open>for (; till < from; ++till) std::swap(items[till], items[till + 1]);\<close>\<close>

function shift_left :: "'a pma \<Rightarrow> int \<Rightarrow> int \<Rightarrow> 'a pma option" where
  "shift_left items from till =
     (if till < from then
        (case swap_slots items till (till + 1) of
           None \<Rightarrow> None
         | Some items1 \<Rightarrow> shift_left items1 from (till + 1))
      else Some items)"
  by pat_completeness auto
termination
  by (relation "measure (\<lambda>(items, from, till). nat (from - till))") auto

declare shift_right.simps [simp del] shift_left.simps [simp del]

text \<open>
  The two loops of \<^verbatim>\<open>closest_gap\<close>:
  \<^verbatim>\<open>for (; closest_right < items.size() && items[closest_right]; ++closest_right);\<close> and
  \<^verbatim>\<open>for (; closest_left >= 0 && items[closest_left]; --closest_left);\<close>
\<close>

function closest_right_loop :: "'a pma \<Rightarrow> int \<Rightarrow> int option" where
  "closest_right_loop items i =
     (if below_size i items then
        (case slot items i of
           None \<Rightarrow> None
         | Some None \<Rightarrow> Some i
         | Some (Some v) \<Rightarrow> closest_right_loop items (i + 1))
      else Some i)"
  by pat_completeness auto
termination
  by (relation "measure (\<lambda>(items, i). nat (int (length items) - i))")
    (auto simp: below_size_def)

function closest_left_loop :: "'a pma \<Rightarrow> int \<Rightarrow> int option" where
  "closest_left_loop items i =
     (if i \<ge> 0 then
        (case slot items i of
           None \<Rightarrow> None
         | Some None \<Rightarrow> Some i
         | Some (Some v) \<Rightarrow> closest_left_loop items (i - 1))
      else Some i)"
  by pat_completeness auto
termination
  by (relation "measure (\<lambda>(items, i). nat (i + 1))") auto

declare closest_right_loop.simps [simp del] closest_left_loop.simps [simp del]

text \<open>\<^verbatim>\<open>closest_gap\<close> returns the gap index and the flag \<^verbatim>\<open>on_right\<close>.\<close>

definition closest_gap :: "'a pma \<Rightarrow> int \<Rightarrow> (int \<times> bool) option" where
  "closest_gap items index =
     do {
       closest_right \<leftarrow> closest_right_loop items (index + 1);
       closest_left \<leftarrow> closest_left_loop items (index - 1);
       if closest_left < 0 then Some (closest_right, True)
       else if \<not> below_size closest_right items then Some (closest_left, False)
       else
         let on_right = (closest_right - index \<le> index - closest_left)
         in Some (if on_right then closest_right else closest_left, on_right)
     }"

text \<open>\<^verbatim>\<open>insert(t, i)\<close> of \<^verbatim>\<open>packed_memory_array.h\<close>.\<close>

definition insert_item :: "('a \<Rightarrow> 'a \<Rightarrow> bool) \<Rightarrow> 'a pma \<Rightarrow> 'a \<Rightarrow> int \<Rightarrow> 'a pma option" where
  "insert_item lt items t i =
     (case slot items i of
        None \<Rightarrow> None
      | Some None \<Rightarrow> put items i (Some t)
      | Some (Some v) \<Rightarrow>
          if greater_cmp lt t v \<and> below_size (i + 1) items \<and> slot items (i + 1) = Some None
          then put items (i + 1) (Some t)
          else if less_cmp lt t v \<and> i - 1 \<ge> 0 \<and> slot items (i - 1) = Some None
          then put items (i - 1) (Some t)
          else
            do {
              (closest_gap_index, on_right) \<leftarrow> closest_gap items i;
              let i' = (if (on_right \<and> greater_cmp lt t v) \<or> (\<not> on_right \<and> less_cmp lt t v)
                        then i + (if on_right then 1 else - 1) else i);
              items1 \<leftarrow> (if on_right then shift_right items i' closest_gap_index
                         else shift_left items i' closest_gap_index);
              put items1 i' (Some t)
            })"

subsection \<open>The public operations\<close>

text \<open>\<^verbatim>\<open>push\<close>: the leaf of the target index is \<open>[block_begin, block_end)\<close>.\<close>

definition push :: "nat \<Rightarrow> ('a \<Rightarrow> 'a \<Rightarrow> bool) \<Rightarrow> 'a pma \<Rightarrow> 'a \<Rightarrow> 'a pma option" where
  "push c lt items t =
     do {
       i \<leftarrow> index_of lt items t;
       let block_begin = (i div int c) * int c;
       let block_end = block_begin + int c;
       n \<leftarrow> count_items items block_begin block_end;
       let count = n + 1;
       h \<leftarrow> tree_height c items;
       (lower, upper) \<leftarrow> get_thresholds c items h;
       let density = (of_int count :: rat) / of_int (block_end - block_begin);
       if density > upper then
         do {
           items1 \<leftarrow> scan c items block_begin block_end count (h - 1);
           i1 \<leftarrow> index_of lt items1 t;
           insert_item lt items1 t i1
         }
       else insert_item lt items t i
     }"

text \<open>\<^verbatim>\<open>remove\<close>: an empty target slot or a non-equivalent occupant returns at once.\<close>

definition remove :: "nat \<Rightarrow> ('a \<Rightarrow> 'a \<Rightarrow> bool) \<Rightarrow> 'a pma \<Rightarrow> 'a \<Rightarrow> 'a pma option" where
  "remove c lt items t =
     do {
       i \<leftarrow> index_of lt items t;
       s \<leftarrow> slot items i;
       (case s of
          None \<Rightarrow> Some items
        | Some v \<Rightarrow>
            if \<not> equal_cmp lt v t then Some items
            else
              do {
                items1 \<leftarrow> put items i None;
                let block_begin = (i div int c) * int c;
                let block_end = block_begin + int c;
                count \<leftarrow> count_items items1 block_begin block_end;
                h \<leftarrow> tree_height c items1;
                (lower, upper) \<leftarrow> get_thresholds c items1 h;
                let density = (of_int count :: rat) / of_int (block_end - block_begin);
                if density < lower then scan c items1 block_begin block_end count (h - 1)
                else Some items1
              })
     }"
section \<open>Properties of the search\<close>

subsection \<open>Reads and writes inside the array\<close>

lemma slot_in [simp]: "0 \<le> i \<Longrightarrow> i < int (length items) \<Longrightarrow> slot items i = Some (items ! nat i)"
  by (simp add: slot_def)

lemma slot_Some_iff: "slot items i = Some x \<longleftrightarrow> 0 \<le> i \<and> i < int (length items) \<and> items ! nat i = x"
  by (auto simp: slot_def)

lemma put_in [simp]: "0 \<le> i \<Longrightarrow> i < int (length items) \<Longrightarrow> put items i v = Some (items[nat i := v])"
  by (simp add: put_def)

lemma put_Some_iff: "put items i v = Some items' \<longleftrightarrow> 0 \<le> i \<and> i < int (length items) \<and> items' = items[nat i := v]"
  by (auto simp: put_def)

lemma skip_empty_right_spec:
  "0 \<le> mid \<Longrightarrow> high < int (length items) \<Longrightarrow>
   \<exists>r. skip_empty_right items mid high = Some r \<and> mid \<le> r \<and>
       (r \<le> high \<longrightarrow> items ! nat r \<noteq> None) \<and>
       (high < r \<longrightarrow> r = max mid (high + 1)) \<and>
       (\<forall>j. mid \<le> j \<and> j < r \<longrightarrow> items ! nat j = None)"
proof (induction items mid high rule: skip_empty_right.induct)
  case (1 items mid high)
  show ?case
  proof (cases "mid \<le> high")
    case False
    then show ?thesis by (auto simp add: skip_empty_right.simps)
  next
    case True
    note le = this
    show ?thesis
    proof (cases "items ! nat mid")
      case (Some v)
      with le "1.prems" show ?thesis
        by (auto simp add: skip_empty_right.simps)
    next
      case None
      with le "1.prems" have sl: "slot items mid = Some None" by simp
      from "1.IH"(1) [OF le sl] "1.prems"
      obtain r where r: "skip_empty_right items (mid + 1) high = Some r" "mid + 1 \<le> r"
        "r \<le> high \<longrightarrow> items ! nat r \<noteq> None"
        "high < r \<longrightarrow> r = max (mid + 1) (high + 1)"
        "\<forall>j. mid + 1 \<le> j \<and> j < r \<longrightarrow> items ! nat j = None"
        by auto
      have eq: "skip_empty_right items mid high = Some r"
        using le sl r(1) by (subst skip_empty_right.simps) simp
      have "\<forall>j. mid \<le> j \<and> j < r \<longrightarrow> items ! nat j = None"
      proof (intro allI impI)
        fix j assume "mid \<le> j \<and> j < r"
        then consider "j = mid" | "mid + 1 \<le> j \<and> j < r" by linarith
        then show "items ! nat j = None" using None r(5) by cases auto
      qed
      moreover have "high < r \<longrightarrow> r = max mid (high + 1)"
        using r(2,4) le by linarith
      ultimately show ?thesis using eq r(2,3) by auto
    qed
  qed
qed

lemma skip_empty_left_spec:
  "mid < int (length items) \<Longrightarrow> 0 \<le> low \<Longrightarrow>
   \<exists>r. skip_empty_left items mid low = Some r \<and> r \<le> mid \<and>
       (low \<le> r \<longrightarrow> items ! nat r \<noteq> None) \<and>
       (r < low \<longrightarrow> r = min mid (low - 1)) \<and>
       (\<forall>j. r < j \<and> j \<le> mid \<longrightarrow> items ! nat j = None)"
proof (induction items mid low rule: skip_empty_left.induct)
  case (1 items mid low)
  show ?case
  proof (cases "low \<le> mid")
    case False
    then show ?thesis by (auto simp add: skip_empty_left.simps)
  next
    case True
    note le = this
    show ?thesis
    proof (cases "items ! nat mid")
      case (Some v)
      with le "1.prems" show ?thesis
        by (auto simp add: skip_empty_left.simps)
    next
      case None
      with le "1.prems" have sl: "slot items mid = Some None" by simp
      from "1.IH"(1) [OF le sl] "1.prems"
      obtain r where r: "skip_empty_left items (mid - 1) low = Some r" "r \<le> mid - 1"
        "low \<le> r \<longrightarrow> items ! nat r \<noteq> None"
        "r < low \<longrightarrow> r = min (mid - 1) (low - 1)"
        "\<forall>j. r < j \<and> j \<le> mid - 1 \<longrightarrow> items ! nat j = None"
        by auto
      have eq: "skip_empty_left items mid low = Some r"
        using le sl r(1) by (subst skip_empty_left.simps) simp
      have "\<forall>j. r < j \<and> j \<le> mid \<longrightarrow> items ! nat j = None"
      proof (intro allI impI)
        fix j assume "r < j \<and> j \<le> mid"
        then consider "j = mid" | "r < j \<and> j \<le> mid - 1" by linarith
        then show "items ! nat j = None" using None r(5) by cases auto
      qed
      moreover have "r < low \<longrightarrow> r = min mid (low - 1)"
        using r(2,4) le by linarith
      ultimately show ?thesis using eq r(2,3) by auto
    qed
  qed
qed

lemma index_of_loop_step:
  assumes "0 \<le> low" "low \<le> high" "high < int (length items)"
  shows "(index_of_loop lt items t low high = Some low \<and>
            (\<forall>j. low \<le> j \<and> j \<le> high \<longrightarrow> items ! nat j = None))
       \<or> (\<exists>mid v. low \<le> mid \<and> mid \<le> high \<and> items ! nat mid = Some v \<and>
            index_of_loop lt items t low high =
              (if lt v t then index_of_loop lt items t (mid + 1) high
               else if lt t v then index_of_loop lt items t low (mid - 1)
               else Some mid))"
proof -
  define m where "m = low + (high - low) div 2"
  have m: "low \<le> m" "m \<le> high" using assms(2) by (auto simp: m_def)
  from skip_empty_right_spec [of m high items] m assms
  obtain r where r: "skip_empty_right items m high = Some r" "m \<le> r"
    "r \<le> high \<longrightarrow> items ! nat r \<noteq> None" "high < r \<longrightarrow> r = max m (high + 1)"
    "\<forall>j. m \<le> j \<and> j < r \<longrightarrow> items ! nat j = None"
    by auto
  show ?thesis
  proof (cases "r \<le> high")
    case True
    with r(3) obtain v where v: "items ! nat r = Some v" by auto
    have "index_of_loop lt items t low high =
              (if lt v t then index_of_loop lt items t (r + 1) high
               else if lt t v then index_of_loop lt items t low (r - 1)
               else Some r)"
      using True r(1,2) m assms v
      by (subst index_of_loop.simps) (simp add: m_def [symmetric] less_cmp_def greater_cmp_def)
    with True r(2) m v show ?thesis by (intro disjI2 exI [of _ r] exI [of _ v]) auto
  next
    case False
    then have hr: "high < r" by simp
    from skip_empty_left_spec [of m items low] m assms
    obtain l where l: "skip_empty_left items m low = Some l" "l \<le> m"
      "low \<le> l \<longrightarrow> items ! nat l \<noteq> None" "l < low \<longrightarrow> l = min m (low - 1)"
      "\<forall>j. l < j \<and> j \<le> m \<longrightarrow> items ! nat j = None"
      by auto
    show ?thesis
    proof (cases "l < low")
      case True
      have "index_of_loop lt items t low high = Some low"
        using True hr r(1) l(1) assms
        by (subst index_of_loop.simps) (simp add: m_def [symmetric])
      moreover have "\<forall>j. low \<le> j \<and> j \<le> high \<longrightarrow> items ! nat j = None"
      proof (intro allI impI)
        fix j assume j: "low \<le> j \<and> j \<le> high"
        show "items ! nat j = None"
        proof (cases "j < m")
          case True
          with j l(5) \<open>l < low\<close> show ?thesis by auto
        next
          case False
          with j r(5) hr show ?thesis by auto
        qed
      qed
      ultimately show ?thesis by blast
    next
      case False
      with l(3) obtain v where v: "items ! nat l = Some v" by auto
      have "index_of_loop lt items t low high =
              (if lt v t then index_of_loop lt items t (l + 1) high
               else if lt t v then index_of_loop lt items t low (l - 1)
               else Some l)"
        using False hr r(1) l(1,2) m assms v
        by (subst index_of_loop.simps) (simp add: m_def [symmetric] less_cmp_def greater_cmp_def)
      with False l(2) m v show ?thesis by (intro disjI2 exI [of _ l] exI [of _ v]) auto
    qed
  qed
qed

lemma index_of_loop_exit:
  "high < low \<Longrightarrow> index_of_loop lt items t low high =
     Some (if low = int (length items) then low - 1 else low)"
  by (subst index_of_loop.simps) simp

lemma index_of_loop_bounds:
  "0 \<le> low \<Longrightarrow> low \<le> high + 1 \<Longrightarrow> high < int (length items) \<Longrightarrow> items \<noteq> [] \<Longrightarrow>
   \<exists>i. index_of_loop lt items t low high = Some i \<and> 0 \<le> i \<and> i < int (length items)"
proof (induction "nat (high + 1 - low)" arbitrary: low high rule: less_induct)
  case less
  show ?case
  proof (cases "low \<le> high")
    case False
    with less.prems have "low = high + 1" by simp
    with less.prems show ?thesis
      by (simp add: index_of_loop_exit)
  next
    case True
    from index_of_loop_step [OF less.prems(1) True less.prems(3), of lt t]
    show ?thesis
    proof (elim disjE conjE exE)
      assume "index_of_loop lt items t low high = Some low"
      with True less.prems show ?thesis by simp
    next
      fix mid v
      assume mid: "low \<le> mid" "mid \<le> high" "items ! nat mid = Some v"
        and eq: "index_of_loop lt items t low high =
              (if lt v t then index_of_loop lt items t (mid + 1) high
               else if lt t v then index_of_loop lt items t low (mid - 1)
               else Some mid)"
      have 1: "\<exists>i. index_of_loop lt items t (mid + 1) high = Some i \<and> 0 \<le> i \<and> i < int (length items)"
        using mid less.prems by (intro less.hyps) auto
      have 2: "\<exists>i. index_of_loop lt items t low (mid - 1) = Some i \<and> 0 \<le> i \<and> i < int (length items)"
        using mid less.prems by (intro less.hyps) auto
      show ?thesis using eq 1 2 mid less.prems by auto
    qed
  qed
qed

lemma index_of_bounds:
  "items \<noteq> [] \<Longrightarrow> \<exists>i. index_of lt items t = Some i \<and> 0 \<le> i \<and> i < int (length items)"
  unfolding index_of_def by (rule index_of_loop_bounds) auto

lemma index_of_all_empty:
  assumes "0 < n"
  shows "index_of lt (replicate n None) t = Some 0"
proof -
  from index_of_loop_step [of 0 "int n - 1" "replicate n None" lt t] assms
  show ?thesis by (auto simp: index_of_def)
qed

subsection \<open>The search on a sorted array\<close>

lemma contents_append [simp]: "contents (xs @ ys) = contents xs @ contents ys"
  by (induction xs) (auto split: option.splits)

lemma set_contents: "set (contents xs) = {a. Some a \<in> set xs}"
  by (induction xs) (auto split: option.splits)

lemma contents_replicate_None [simp]: "contents (replicate n None) = []"
  by (induction n) auto

lemma in_contents_take: "a \<in> set (contents (take n xs)) \<longleftrightarrow> (\<exists>j<n. j < length xs \<and> xs ! j = Some a)"
  by (auto simp: set_contents in_set_conv_nth)

lemma in_contents_drop: "a \<in> set (contents (drop n xs)) \<longleftrightarrow> (\<exists>j\<ge>n. j < length xs \<and> xs ! j = Some a)"
proof
  assume "a \<in> set (contents (drop n xs))"
  then obtain i where "i < length xs - n" "drop n xs ! i = Some a"
    by (auto simp: set_contents in_set_conv_nth)
  then show "\<exists>j\<ge>n. j < length xs \<and> xs ! j = Some a"
    by (intro exI [of _ "n + i"]) auto
next
  assume "\<exists>j\<ge>n. j < length xs \<and> xs ! j = Some a"
  then obtain j where j: "n \<le> j" "j < length xs" "xs ! j = Some a" by auto
  then have "drop n xs ! (j - n) = Some a" "j - n < length (drop n xs)" by auto
  then show "a \<in> set (contents (drop n xs))"
    unfolding set_contents by (metis mem_Collect_eq nth_mem)
qed

lemma sorted_contents_nth:
  assumes "sorted_wrt lt (contents items)" "j < k" "k < length items"
    "items ! j = Some a" "items ! k = Some b"
  shows "lt a b"
proof -
  have "contents items = contents (take k items) @ contents (drop k items)"
    by (metis append_take_drop_id contents_append)
  with assms(1) have "\<forall>x\<in>set (contents (take k items)). \<forall>y\<in>set (contents (drop k items)). lt x y"
    by (simp add: sorted_wrt_append)
  moreover have "a \<in> set (contents (take k items))"
    using assms by (auto simp: in_contents_take)
  moreover have "b \<in> set (contents (drop k items))"
    using assms by (auto simp: in_contents_drop)
  ultimately show ?thesis by blast
qed

text \<open>
  Two specification predicates for the result of the search: the slot holds a value
  equivalent to the probe, or every occupied slot to the left is below the probe and every
  occupied slot to the right is above it (and an occupant of the slot itself is not
  equivalent to the probe).
\<close>

definition found_at :: "('a \<Rightarrow> 'a \<Rightarrow> bool) \<Rightarrow> 'a pma \<Rightarrow> 'a \<Rightarrow> int \<Rightarrow> bool" where
  "found_at lt items t i \<longleftrightarrow> (\<exists>v. items ! nat i = Some v \<and> \<not> lt v t \<and> \<not> lt t v)"

definition position_at :: "('a \<Rightarrow> 'a \<Rightarrow> bool) \<Rightarrow> 'a pma \<Rightarrow> 'a \<Rightarrow> int \<Rightarrow> bool" where
  "position_at lt items t i \<longleftrightarrow>
     (\<forall>j a. int j < i \<and> j < length items \<and> items ! j = Some a \<longrightarrow> lt a t) \<and>
     (\<forall>j a. i < int j \<and> j < length items \<and> items ! j = Some a \<longrightarrow> lt t a) \<and>
     (\<forall>v. items ! nat i = Some v \<longrightarrow> lt v t \<or> lt t v)"

lemma index_of_loop_sorted:
  assumes sorted: "sorted_wrt lt (contents items)" and trans: "transp lt"
  shows "0 \<le> low \<Longrightarrow> low \<le> high + 1 \<Longrightarrow> high < int (length items) \<Longrightarrow> items \<noteq> [] \<Longrightarrow>
    (\<forall>j a. int j < low \<and> j < length items \<and> items ! j = Some a \<longrightarrow> lt a t) \<Longrightarrow>
    (\<forall>j a. high < int j \<and> j < length items \<and> items ! j = Some a \<longrightarrow> lt t a) \<Longrightarrow>
    \<exists>i. index_of_loop lt items t low high = Some i \<and> 0 \<le> i \<and> i < int (length items) \<and>
        (found_at lt items t i \<or> position_at lt items t i)"
proof (induction "nat (high + 1 - low)" arbitrary: low high rule: less_induct)
  case less
  note lo = less.prems(5) and hi = less.prems(6)
  show ?case
  proof (cases "low \<le> high")
    case False
    with less.prems have eq: "low = high + 1" by simp
    show ?thesis
    proof (cases "low = int (length items)")
      case True
      from less.prems(4) have len: "nat (int (length items) - 1) < length items"
        by (cases items) auto
      have "position_at lt items t (low - 1)"
        unfolding position_at_def
      proof (intro conjI allI impI)
        fix j a assume "int j < low - 1 \<and> j < length items \<and> items ! j = Some a"
        then show "lt a t" using lo [rule_format, of j a] by linarith
      next
        fix j a assume "low - 1 < int j \<and> j < length items \<and> items ! j = Some a"
        with True show "lt t a" by auto
      next
        fix v assume "items ! nat (low - 1) = Some v"
        moreover have "int (nat (low - 1)) < low" using True less.prems(4) by (cases items) auto
        ultimately show "lt v t \<or> lt t v"
          using lo [rule_format, of "nat (low - 1)" v] len True by blast
      qed
      with True less.prems eq show ?thesis
        by (simp add: index_of_loop_exit)
    next
      case False
      have lowlen: "nat low < length items" using False less.prems eq by auto
      have "position_at lt items t low"
        unfolding position_at_def
      proof (intro conjI allI impI)
        fix j a assume "int j < low \<and> j < length items \<and> items ! j = Some a"
        with lo show "lt a t" by blast
      next
        fix j a assume "low < int j \<and> j < length items \<and> items ! j = Some a"
        then show "lt t a" using hi [rule_format, of j a] eq by linarith
      next
        fix v assume "items ! nat low = Some v"
        moreover have "high < int (nat low)" using eq less.prems(1) by auto
        ultimately show "lt v t \<or> lt t v"
          using hi [rule_format, of "nat low" v] lowlen by blast
      qed
      with False less.prems eq show ?thesis
        by (simp add: index_of_loop_exit)
    qed
  next
    case True
    from index_of_loop_step [OF less.prems(1) True less.prems(3), of lt t]
    show ?thesis
    proof (elim disjE conjE exE)
      assume eq: "index_of_loop lt items t low high = Some low"
        and emp: "\<forall>j. low \<le> j \<and> j \<le> high \<longrightarrow> items ! nat j = None"
      have "position_at lt items t low"
        unfolding position_at_def
      proof (intro conjI allI impI)
        fix j a assume "int j < low \<and> j < length items \<and> items ! j = Some a"
        with lo show "lt a t" by blast
      next
        fix j a assume j: "low < int j \<and> j < length items \<and> items ! j = Some a"
        show "lt t a"
        proof (cases "int j \<le> high")
          case True
          with emp j have "items ! nat (int j) = None" by (intro emp [rule_format]) auto
          with j show ?thesis by simp
        next
          case False
          then show ?thesis using hi [rule_format, of j a] j by (simp add: not_le)
        qed
      next
        fix v assume "items ! nat low = Some v"
        with emp True show "lt v t \<or> lt t v" by auto
      qed
      with eq True less.prems show ?thesis by simp
    next
      fix mid v
      assume mid: "low \<le> mid" "mid \<le> high" "items ! nat mid = Some v"
        and eq: "index_of_loop lt items t low high =
              (if lt v t then index_of_loop lt items t (mid + 1) high
               else if lt t v then index_of_loop lt items t low (mid - 1)
               else Some mid)"
      have midn: "nat mid < length items" using mid less.prems by auto
      show ?thesis
      proof (cases "lt v t")
        case True
        have lo': "\<forall>j a. int j < mid + 1 \<and> j < length items \<and> items ! j = Some a \<longrightarrow> lt a t"
        proof (intro allI impI)
          fix j a assume j: "int j < mid + 1 \<and> j < length items \<and> items ! j = Some a"
          show "lt a t"
          proof (cases "int j = mid")
            case True
            with j mid True \<open>lt v t\<close> show ?thesis by auto
          next
            case False
            with j mid(1) less.prems(1) have "j < nat mid" by linarith
            from sorted_contents_nth [OF sorted this midn _ mid(3)] j have "lt a v" by auto
            with \<open>lt v t\<close> trans show ?thesis by (auto elim: transpE)
          qed
        qed
        have "\<exists>i. index_of_loop lt items t (mid + 1) high = Some i \<and> 0 \<le> i \<and>
            i < int (length items) \<and> (found_at lt items t i \<or> position_at lt items t i)"
          using mid less.prems(1-4) lo' hi by (intro less.hyps) auto
        with eq True show ?thesis by simp
      next
        case nlt: False
        show ?thesis
        proof (cases "lt t v")
          case True
          have hi': "\<forall>j a. mid - 1 < int j \<and> j < length items \<and> items ! j = Some a \<longrightarrow> lt t a"
          proof (intro allI impI)
            fix j a assume j: "mid - 1 < int j \<and> j < length items \<and> items ! j = Some a"
            show "lt t a"
            proof (cases "int j = mid")
              case True
              with j mid \<open>lt t v\<close> show ?thesis by auto
            next
              case False
              with j mid(1) less.prems(1) have "nat mid < j" by linarith
              from sorted_contents_nth [OF sorted this _ mid(3)] j have "lt v a" by auto
              with \<open>lt t v\<close> trans show ?thesis by (auto elim: transpE)
            qed
          qed
          have "\<exists>i. index_of_loop lt items t low (mid - 1) = Some i \<and> 0 \<le> i \<and>
              i < int (length items) \<and> (found_at lt items t i \<or> position_at lt items t i)"
            using mid less.prems(1-4) lo hi' by (intro less.hyps) auto
          with eq nlt True show ?thesis by simp
        next
          case False
          with nlt mid have "found_at lt items t mid" by (auto simp: found_at_def)
          with eq nlt False mid less.prems show ?thesis by auto
        qed
      qed
    qed
  qed
qed

lemma index_of_sorted:
  assumes "sorted_wrt lt (contents items)" "transp lt" "items \<noteq> []"
  shows "\<exists>i. index_of lt items t = Some i \<and> 0 \<le> i \<and> i < int (length items) \<and>
        (found_at lt items t i \<or> position_at lt items t i)"
  unfolding index_of_def using assms
  by (intro index_of_loop_sorted) auto

text \<open>
  C6. For every store state, the all-empty array included, and every probe,
  \<^verbatim>\<open>index_of\<close> returns an index in \<open>[0, capacity)\<close> and never reads outside the array.
  Leaving the loop with \<open>low = capacity\<close> it returns \<open>capacity - 1\<close>; on the all-empty
  array it returns index 0. A store has at least one slot (its capacity is at least twice
  the chunk size).
\<close>

theorem index_of_in_bounds:
  assumes "items \<noteq> []"
  shows "(\<exists>i. index_of lt items t = Some i \<and> 0 \<le> i \<and> i < int (length items))
       \<and> index_of_loop lt items t (int (length items)) (int (length items) - 1)
           = Some (int (length items) - 1)
       \<and> index_of lt (replicate (length items) None) t = Some 0"
proof (intro conjI)
  show "\<exists>i. index_of lt items t = Some i \<and> 0 \<le> i \<and> i < int (length items)"
    using assms by (rule index_of_bounds)
  show "index_of_loop lt items t (int (length items)) (int (length items) - 1)
           = Some (int (length items) - 1)"
    by (simp add: index_of_loop_exit)
  show "index_of lt (replicate (length items) None) t = Some 0"
    using assms by (intro index_of_all_empty) simp
qed

theorem index_of_in_bounds_witness:
  "[Some (1::int), None, Some 5, None] \<noteq> []
   \<and> (\<exists>i. index_of (<) [Some (1::int), None, Some 5, None] 7 = Some i \<and> 0 \<le> i \<and> i < 4)
   \<and> index_of (<) [None, None, None, None] (7::int) = Some 0"
  using index_of_in_bounds [of "[Some (1::int), None, Some 5, None]" "(<)" 7]
  by simp

text \<open>
  C5. On a store whose occupied slots are strictly increasing, a probe equivalent to some
  stored item is found: \<^verbatim>\<open>index_of\<close> returns an index whose slot is occupied by an item
  equivalent to the probe.
\<close>

theorem index_of_finds_present:
  assumes sorted: "sorted_wrt lt (contents items)" and trans: "transp lt"
    and v: "v \<in> set (contents items)" and eq: "equal_cmp lt v t"
  shows "\<exists>i u. index_of lt items t = Some i \<and> slot items i = Some (Some u) \<and> equal_cmp lt u t"
proof -
  from v have ne: "items \<noteq> []" by auto
  from index_of_sorted [OF sorted trans ne, of t]
  obtain i where i: "index_of lt items t = Some i" "0 \<le> i" "i < int (length items)"
    "found_at lt items t i \<or> position_at lt items t i"
    by blast
  from v obtain p where p: "p < length items" "items ! p = Some v"
    by (auto simp: set_contents in_set_conv_nth)
  from eq have nv: "\<not> lt v t" "\<not> lt t v"
    by (auto simp: equal_cmp_def less_cmp_def greater_cmp_def)
  have "\<not> position_at lt items t i"
  proof
    assume pos: "position_at lt items t i"
    consider "int p < i" | "i < int p" | "p = nat i" using i(2) by linarith
    then show False
    proof cases
      case 1
      with pos p nv show False unfolding position_at_def by blast
    next
      case 2
      with pos p nv show False unfolding position_at_def by blast
    next
      case 3
      with pos p nv show False unfolding position_at_def by blast
    qed
  qed
  with i(4) obtain u where "items ! nat i = Some u" "\<not> lt u t" "\<not> lt t u"
    by (auto simp: found_at_def)
  with i(1,2,3) show ?thesis
    by (auto simp: equal_cmp_def less_cmp_def greater_cmp_def)
qed

theorem index_of_finds_present_witness:
  "sorted_wrt (<) (contents [Some (1::int), None, Some 5, None]) \<and> transp ((<) :: int \<Rightarrow> int \<Rightarrow> bool)
   \<and> (5::int) \<in> set (contents [Some 1, None, Some 5, None]) \<and> equal_cmp (<) (5::int) 5
   \<and> (\<exists>i u. index_of (<) [Some (1::int), None, Some 5, None] 5 = Some i
         \<and> slot [Some (1::int), None, Some 5, None] i = Some (Some u) \<and> equal_cmp (<) u (5::int))"
proof -
  have h: "sorted_wrt (<) (contents [Some (1::int), None, Some 5, None])"
    "transp ((<) :: int \<Rightarrow> int \<Rightarrow> bool)"
    "(5::int) \<in> set (contents [Some 1, None, Some 5, None])" "equal_cmp (<) (5::int) 5"
    by (simp_all add: equal_cmp_def less_cmp_def greater_cmp_def)
  from index_of_finds_present [OF h] h show ?thesis by blast
qed

subsection \<open>\<^verbatim>\<open>successor\<close>\<close>

lemma successor_loop_spec:
  "0 \<le> i \<Longrightarrow> i \<le> int (length items) \<Longrightarrow>
   \<exists>j. successor_loop lt items t i = Some j \<and> i \<le> j \<and> j \<le> int (length items) \<and>
     (\<forall>k a. i \<le> int k \<and> int k < j \<and> items ! k = Some a \<longrightarrow> lt a t \<or> \<not> lt t a) \<and>
     (j < int (length items) \<longrightarrow> (\<exists>a. items ! nat j = Some a \<and> \<not> lt a t \<and> lt t a))"
proof (induction lt items t i rule: successor_loop.induct)
  case (1 lt items t i)
  show ?case
  proof (cases "i < int (length items)")
    case False
    with "1.prems" have "i = int (length items)" by simp
    then show ?thesis
      by (subst successor_loop.simps) (auto simp add: below_size_def)
  next
    case True
    with "1.prems" have bs: "below_size i items" by (simp add: below_size_def)
    have sl: "slot items i = Some (items ! nat i)" using True "1.prems" by simp
    have skip: "\<exists>j. successor_loop lt items t i = Some j \<and> i \<le> j \<and> j \<le> int (length items) \<and>
       (\<forall>k a. i \<le> int k \<and> int k < j \<and> items ! k = Some a \<longrightarrow> lt a t \<or> \<not> lt t a) \<and>
       (j < int (length items) \<longrightarrow> (\<exists>a. items ! nat j = Some a \<and> \<not> lt a t \<and> lt t a))"
      if eq: "successor_loop lt items t i = successor_loop lt items t (i + 1)"
        and ih: "\<exists>j. successor_loop lt items t (i + 1) = Some j \<and> i + 1 \<le> j \<and> j \<le> int (length items) \<and>
          (\<forall>k a. i + 1 \<le> int k \<and> int k < j \<and> items ! k = Some a \<longrightarrow> lt a t \<or> \<not> lt t a) \<and>
          (j < int (length items) \<longrightarrow> (\<exists>a. items ! nat j = Some a \<and> \<not> lt a t \<and> lt t a))"
        and here: "\<forall>a. items ! nat i = Some a \<longrightarrow> lt a t \<or> \<not> lt t a"
    proof -
      from ih obtain j where j: "successor_loop lt items t (i + 1) = Some j" "i + 1 \<le> j"
        "j \<le> int (length items)"
        "\<forall>k a. i + 1 \<le> int k \<and> int k < j \<and> items ! k = Some a \<longrightarrow> lt a t \<or> \<not> lt t a"
        "j < int (length items) \<longrightarrow> (\<exists>a. items ! nat j = Some a \<and> \<not> lt a t \<and> lt t a)"
        by blast
      have "\<forall>k a. i \<le> int k \<and> int k < j \<and> items ! k = Some a \<longrightarrow> lt a t \<or> \<not> lt t a"
      proof (intro allI impI)
        fix k a assume k: "i \<le> int k \<and> int k < j \<and> items ! k = Some a"
        show "lt a t \<or> \<not> lt t a"
        proof (cases "int k = i")
          case True
          then have "nat i = k" by simp
          with here k show ?thesis by blast
        next
          case False
          with k have "i + 1 \<le> int k" by simp
          with j(4) k show ?thesis by blast
        qed
      qed
      with j eq show ?thesis by (intro exI [of _ j]) auto
    qed
    show ?thesis
    proof (cases "items ! nat i")
      case None
      have eq: "successor_loop lt items t i = successor_loop lt items t (i + 1)"
        using bs sl None by (subst successor_loop.simps) simp
      have ih: "\<exists>j. successor_loop lt items t (i + 1) = Some j \<and> i + 1 \<le> j \<and> j \<le> int (length items) \<and>
          (\<forall>k a. i + 1 \<le> int k \<and> int k < j \<and> items ! k = Some a \<longrightarrow> lt a t \<or> \<not> lt t a) \<and>
          (j < int (length items) \<longrightarrow> (\<exists>a. items ! nat j = Some a \<and> \<not> lt a t \<and> lt t a))"
        using "1.IH"(1) [OF bs] sl None "1.prems" True by simp
      show ?thesis using skip [OF eq ih] None by simp
    next
      case (Some v)
      show ?thesis
      proof (cases "less_equal_cmp lt v t")
        case True
        have eq: "successor_loop lt items t i = successor_loop lt items t (i + 1)"
          using bs sl Some True by (subst successor_loop.simps) simp
        have ih: "\<exists>j. successor_loop lt items t (i + 1) = Some j \<and> i + 1 \<le> j \<and> j \<le> int (length items) \<and>
          (\<forall>k a. i + 1 \<le> int k \<and> int k < j \<and> items ! k = Some a \<longrightarrow> lt a t \<or> \<not> lt t a) \<and>
          (j < int (length items) \<longrightarrow> (\<exists>a. items ! nat j = Some a \<and> \<not> lt a t \<and> lt t a))"
          using "1.IH"(2) [OF bs] sl Some True "1.prems" \<open>i < int (length items)\<close> by simp
        have "\<forall>a. items ! nat i = Some a \<longrightarrow> lt a t \<or> \<not> lt t a"
          using Some True by (simp add: less_equal_cmp_def less_cmp_def greater_cmp_def)
        from skip [OF eq ih this] show ?thesis .
      next
        case False
        have eq: "successor_loop lt items t i = Some i"
          using bs sl Some False by (subst successor_loop.simps) simp
        have "\<not> lt v t \<and> lt t v"
          using False by (simp add: less_equal_cmp_def less_cmp_def greater_cmp_def)
        with eq Some True "1.prems" show ?thesis
          by (intro exI [of _ i]) auto
      qed
    qed
  qed
qed

text \<open>
  C4. On a store whose occupied slots are strictly increasing, \<^verbatim>\<open>successor\<close> returns the
  smallest occupied value strictly greater than the probe, and the probe itself when no
  occupied value is strictly greater (in particular when no slot is occupied). The
  comparator is a strict order.
\<close>

theorem successor_correct:
  assumes sorted: "sorted_wrt lt (contents items)" and trans: "transp lt"
    and irrefl: "irreflp lt" and ne: "items \<noteq> []"
  shows "\<exists>r. successor lt items t = Some r \<and>
           (if \<exists>v\<in>set (contents items). lt t v
            then r \<in> set (contents items) \<and> lt t r \<and>
                 (\<forall>v\<in>set (contents items). lt t v \<longrightarrow> v = r \<or> lt r v)
            else r = t)"
proof -
  have asym: "\<not> lt b a" if "lt a b" for a b
    using that trans irrefl by (meson irreflpD transpE)
  from index_of_sorted [OF sorted trans ne, of t]
  obtain i where i: "index_of lt items t = Some i" "0 \<le> i" "i < int (length items)"
    "found_at lt items t i \<or> position_at lt items t i"
    by blast
  from successor_loop_spec [of i items lt t] i
  obtain j where j: "successor_loop lt items t i = Some j" "i \<le> j" "j \<le> int (length items)"
    "\<forall>k a. i \<le> int k \<and> int k < j \<and> items ! k = Some a \<longrightarrow> lt a t \<or> \<not> lt t a"
    "j < int (length items) \<longrightarrow> (\<exists>a. items ! nat j = Some a \<and> \<not> lt a t \<and> lt t a)"
    by auto
  have left: "\<not> lt t a" if "int k < i" "k < length items" "items ! k = Some a" for k a
    using i(4)
  proof
    assume "found_at lt items t i"
    then obtain v where v: "items ! nat i = Some v" "\<not> lt v t" "\<not> lt t v"
      by (auto simp: found_at_def)
    have "k < nat i" using that i(2) by linarith
    moreover have "nat i < length items" using i(2,3) by linarith
    ultimately have "lt a v" using sorted_contents_nth [OF sorted _ _ that(3) v(1)] by blast
    with v(3) trans show ?thesis by (meson transpE)
  next
    assume "position_at lt items t i"
    with that have "lt a t" unfolding position_at_def by blast
    then show ?thesis by (rule asym)
  qed
  have before: "\<not> lt t a" if "int k < j" "k < length items" "items ! k = Some a" for k a
  proof (cases "int k < i")
    case True
    then show ?thesis using that by (intro left [of k])
  next
    case False
    with j(4) that have "lt a t \<or> \<not> lt t a" by (simp add: not_less)
    then show ?thesis using asym by blast
  qed
  show ?thesis
  proof (cases "j < int (length items)")
    case True
    with j(5) obtain r where r: "items ! nat j = Some r" "lt t r" by blast
    have jn: "nat j < length items" using True i(2) j(2) by linarith
    have bs: "below_size j items" using True i(2) j(2) by (simp add: below_size_def)
    have res: "successor lt items t = Some r"
      using i(1) j(1) bs r(1) True i(2) j(2) by (simp add: successor_def)
    have rin: "r \<in> set (contents items)"
      using r(1) jn by (auto simp: set_contents in_set_conv_nth)
    have least: "v = r \<or> lt r v" if "v \<in> set (contents items)" "lt t v" for v
    proof -
      from that(1) obtain p where p: "p < length items" "items ! p = Some v"
        by (auto simp: set_contents in_set_conv_nth)
      have "\<not> int p < j" using before [OF _ p] that(2) by blast
      then consider "p = nat j" | "nat j < p" using i(2) j(2) by linarith
      then show ?thesis
      proof cases
        case 1
        with p r show ?thesis by simp
      next
        case 2
        from sorted_contents_nth [OF sorted 2 p(1) r(1) p(2)] show ?thesis by simp
      qed
    qed
    from res rin r(2) least show ?thesis by auto
  next
    case False
    then have bs: "\<not> below_size j items" by (simp add: below_size_def)
    have res: "successor lt items t = Some t"
      using i(1) j(1) bs by (simp add: successor_def)
    have "\<not> lt t v" if "v \<in> set (contents items)" for v
    proof -
      from that obtain p where p: "p < length items" "items ! p = Some v"
        by (auto simp: set_contents in_set_conv_nth)
      with False j(3) have "int p < j" by simp
      from before [OF this p] show ?thesis .
    qed
    with res show ?thesis by auto
  qed
qed

theorem successor_correct_witness:
  "sorted_wrt (<) (contents [Some (3::int), None, Some 5, Some 8]) \<and>
   transp ((<) :: int \<Rightarrow> int \<Rightarrow> bool) \<and> irreflp ((<) :: int \<Rightarrow> int \<Rightarrow> bool) \<and>
   [Some (3::int), None, Some 5, Some 8] \<noteq> [] \<and>
   successor (<) [Some (3::int), None, Some 5, Some 8] 4 = Some 5 \<and>
   successor (<) [Some (3::int), None, Some 5, Some 8] 8 = Some 8"
proof -
  have h: "sorted_wrt (<) (contents [Some (3::int), None, Some 5, Some 8])"
    "transp ((<) :: int \<Rightarrow> int \<Rightarrow> bool)" "irreflp ((<) :: int \<Rightarrow> int \<Rightarrow> bool)"
    "[Some (3::int), None, Some 5, Some 8] \<noteq> []"
    by (simp_all add: irreflp_def)
  from successor_correct [OF h, of 4] have "successor (<) [Some (3::int), None, Some 5, Some 8] 4 = Some 5"
    by auto
  moreover from successor_correct [OF h, of 8] have "successor (<) [Some (3::int), None, Some 5, Some 8] 8 = Some 8"
    by auto
  ultimately show ?thesis using h by blast
qed

section \<open>Redistribution\<close>

lemma cround_nonneg: "0 \<le> x \<Longrightarrow> cround x = \<lfloor>x + 1 / 2\<rfloor>"
  by (simp add: cround_def)

lemma cround_ge0: "0 \<le> x \<Longrightarrow> 0 \<le> cround x"
  by (simp add: cround_def)

lemma cround_mono: "0 \<le> x \<Longrightarrow> x \<le> y \<Longrightarrow> cround x \<le> cround y"
  by (simp add: cround_def floor_mono)

lemma cround_step: 
  assumes "0 \<le> x" "0 \<le> s"
  shows "cround x + \<lfloor>s\<rfloor> \<le> cround (x + s)"
proof -
  have "\<lfloor>x + 1 / 2\<rfloor> + \<lfloor>s\<rfloor> \<le> \<lfloor>(x + 1 / 2) + s\<rfloor>" by (rule le_floor_add)
  then show ?thesis using assms by (simp add: cround_def add.assoc add.commute)
qed

lemma cround_step1:
  assumes "0 \<le> x" "1 \<le> s"
  shows "cround x < cround (x + s)"
proof -
  have "1 \<le> \<lfloor>s\<rfloor>" using assms(2) by (simp add: le_floor_iff)
  with cround_step [of x s] assms show ?thesis by linarith
qed

lemma cround_strict_mono:
  assumes "0 \<le> x" "1 \<le> s" "i < j"
  shows "cround (x + of_nat i * s) < cround (x + of_nat j * s)"
  using assms(3)
proof (induction j)
  case 0
  then show ?case by simp
next
  case (Suc j)
  have pos: "0 \<le> x + of_nat j * s" using assms by simp
  have step: "cround (x + of_nat j * s) < cround (x + of_nat (Suc j) * s)"
    using cround_step1 [OF pos assms(2)] by (simp add: algebra_simps)
  show ?case
  proof (cases "i = j")
    case True
    with step show ?thesis by simp
  next
    case False
    with Suc have "cround (x + of_nat i * s) < cround (x + of_nat j * s)" by simp
    with step show ?thesis by simp
  qed
qed

lemma contents_all_None: "(\<forall>x\<in>set xs. x = None) \<Longrightarrow> contents xs = []"
  by (induction xs) auto

lemma contents_update_tail:
  assumes "i < e" "e \<le> length items" "\<forall>p. i \<le> p \<and> p < e \<longrightarrow> items ! p = None"
  shows "contents (take e (items[i := Some x])) = contents (take e items) @ [x]"
proof -
  define ys where "ys = take e items"
  have len: "length ys = e" using assms by (simp add: ys_def)
  have none: "\<forall>p. i \<le> p \<and> p < e \<longrightarrow> ys ! p = None" using assms by (simp add: ys_def)
  have tail: "contents (drop n ys) = []" if "i \<le> n" for n
  proof (rule contents_all_None, rule ballI)
    fix z assume "z \<in> set (drop n ys)"
    then obtain q where "q < length ys - n" "z = drop n ys ! q"
      by (auto simp: in_set_conv_nth)
    with none len that show "z = None" by auto
  qed
  have "take e (items[i := Some x]) = ys[i := Some x]"
    by (simp add: ys_def take_update_swap)
  also have "\<dots> = take i ys @ Some x # drop (Suc i) ys"
    using assms len by (simp add: upd_conv_take_nth_drop)
  finally have "contents (take e (items[i := Some x])) = contents (take i ys) @ [x]"
    using tail [of "Suc i"] by simp
  moreover have "contents ys = contents (take i ys)"
  proof -
    have "contents ys = contents (take i ys @ drop i ys)" by simp
    also have "\<dots> = contents (take i ys)" using tail [of i] by (simp del: append_take_drop_id)
    finally show ?thesis .
  qed
  ultimately show ?thesis by (simp add: ys_def)
qed

lemma rearrange_loop_spec:
  assumes "1 \<le> step" "0 \<le> b" "e \<le> int (length items)"
  shows "0 \<le> pos \<Longrightarrow> 
     (buf \<noteq> [] \<longrightarrow> b + cround (pos + of_nat (length buf - 1) * step) < e) \<Longrightarrow>
     \<exists>items'. rearrange_loop items b step pos buf = Some items' \<and> length items' = length items
     \<and> (\<forall>j<length buf. items' ! nat (b + cround (pos + of_nat j * step)) = Some (buf ! j))
     \<and> (\<forall>p<length items. (\<forall>j<length buf. int p \<noteq> b + cround (pos + of_nat j * step))
            \<longrightarrow> items' ! p = items ! p)
     \<and> ((\<forall>p. b + cround pos \<le> int p \<and> int p < e \<longrightarrow> items ! p = None)
            \<longrightarrow> contents (take (nat e) items') = contents (take (nat e) items) @ buf)"
  using assms(3)
proof (induction buf arbitrary: items pos)
  case Nil
  then show ?case by simp
next
  case (Cons x xs)
  define i0 where "i0 = b + cround pos"
  have i0: "0 \<le> i0" using assms(2) Cons.prems(1) by (simp add: i0_def cround_ge0)
  have step0: "0 \<le> step" using assms(1) by simp
  have last: "b + cround (pos + of_nat (length xs) * step) < e" using Cons.prems(2) by simp
  have "cround pos \<le> cround (pos + of_nat (length xs) * step)"
    using Cons.prems(1) step0 by (intro cround_mono) auto
  with last have i0e: "i0 < e" by (simp add: i0_def)
  with Cons.prems(3) have i0len: "i0 < int (length items)" by simp
  define items1 where "items1 = items[nat i0 := Some x]"
  have put: "put items (b + cround pos) (Some x) = Some items1"
    using i0 i0len by (simp add: i0_def items1_def)
  have pos': "0 \<le> pos + step" using Cons.prems(1) step0 by simp
  have idx: "pos + step + of_nat j * step = pos + of_nat (Suc j) * step" for j
    by (simp add: algebra_simps)
  have last': "xs \<noteq> [] \<longrightarrow> b + cround (pos + step + of_nat (length xs - 1) * step) < e"
  proof
    assume "xs \<noteq> []"
    then obtain m where m: "length xs = Suc m" by (cases xs) auto
    have "pos + step + of_nat m * step = pos + of_nat (Suc m) * step" by (rule idx)
    then have "cround (pos + step + of_nat m * step) = cround (pos + of_nat (length xs) * step)"
      unfolding m by (rule arg_cong)
    with last m show "b + cround (pos + step + of_nat (length xs - 1) * step) < e"
      by simp
  qed
  have len1: "e \<le> int (length items1)" using Cons.prems(3) by (simp add: items1_def)
  from Cons.IH [OF pos' last' len1]
  obtain items' where r: "rearrange_loop items1 b step (pos + step) xs = Some items'"
    "length items' = length items1"
    "\<forall>j<length xs. items' ! nat (b + cround (pos + step + of_nat j * step)) = Some (xs ! j)"
    "\<forall>p<length items1. (\<forall>j<length xs. int p \<noteq> b + cround (pos + step + of_nat j * step))
            \<longrightarrow> items' ! p = items1 ! p"
    "(\<forall>p. b + cround (pos + step) \<le> int p \<and> int p < e \<longrightarrow> items1 ! p = None)
            \<longrightarrow> contents (take (nat e) items') = contents (take (nat e) items1) @ xs"
    by blast
  have later: "i0 < b + cround (pos + of_nat (Suc j) * step)" for j
    using cround_strict_mono [OF Cons.prems(1) assms(1), of 0 "Suc j"] by (simp add: i0_def)
  have res: "rearrange_loop items b step pos (x # xs) = Some items'"
    using put r(1) by simp
  have len: "length items' = length items" using r(2) by (simp add: items1_def)
  have at0: "items' ! nat i0 = Some x"
  proof -
    have "\<forall>j<length xs. int (nat i0) \<noteq> b + cround (pos + step + of_nat j * step)"
      using later i0 by (simp add: idx) (metis less_irrefl)
    moreover have "nat i0 < length items1" using i0 i0len by (simp add: items1_def)
    ultimately have "items' ! nat i0 = items1 ! nat i0" using r(4) by blast
    also have "\<dots> = Some x" using i0 i0len by (simp add: items1_def)
    finally show ?thesis .
  qed
  have placed: "\<forall>j<length (x # xs). items' ! nat (b + cround (pos + of_nat j * step)) = Some ((x # xs) ! j)"
  proof (intro allI impI)
    fix j assume j: "j < length (x # xs)"
    show "items' ! nat (b + cround (pos + of_nat j * step)) = Some ((x # xs) ! j)"
    proof (cases j)
      case 0
      with at0 show ?thesis by (simp add: i0_def)
    next
      case (Suc j')
      with j r(3) have "items' ! nat (b + cround (pos + step + of_nat j' * step)) = Some (xs ! j')"
        by simp
      with Suc show ?thesis by (simp add: idx)
    qed
  qed
  have untouched: "\<forall>p<length items. (\<forall>j<length (x # xs). int p \<noteq> b + cround (pos + of_nat j * step))
            \<longrightarrow> items' ! p = items ! p"
  proof (intro allI impI)
    fix p assume p: "p < length items"
      and ne: "\<forall>j<length (x # xs). int p \<noteq> b + cround (pos + of_nat j * step)"
    from ne [rule_format, of 0] have p0: "int p \<noteq> i0" by (simp add: i0_def)
    have "\<forall>j<length xs. int p \<noteq> b + cround (pos + step + of_nat j * step)"
    proof (intro allI impI)
      fix j assume "j < length xs"
      with ne [rule_format, of "Suc j"] show "int p \<noteq> b + cround (pos + step + of_nat j * step)"
        by (simp add: idx)
    qed
    with r(4) p have "items' ! p = items1 ! p" by (simp add: items1_def)
    also have "\<dots> = items ! p" using p0 i0 by (auto simp: items1_def nth_list_update)
    finally show "items' ! p = items ! p" .
  qed
  have cont: "(\<forall>p. b + cround pos \<le> int p \<and> int p < e \<longrightarrow> items ! p = None)
            \<longrightarrow> contents (take (nat e) items') = contents (take (nat e) items) @ (x # xs)"
  proof
    assume empty: "\<forall>p. b + cround pos \<le> int p \<and> int p < e \<longrightarrow> items ! p = None"
    have e1: "\<forall>p. b + cround (pos + step) \<le> int p \<and> int p < e \<longrightarrow> items1 ! p = None"
    proof (intro allI impI)
      fix p assume p: "b + cround (pos + step) \<le> int p \<and> int p < e"
      have "i0 < b + cround (pos + step)" using later [of 0] by simp
      with p have "i0 < int p" by simp
      with empty p i0 show "items1 ! p = None" by (auto simp: items1_def i0_def nth_list_update)
    qed
    have "contents (take (nat e) items1) = contents (take (nat e) items) @ [x]"
      unfolding items1_def
    proof (rule contents_update_tail)
      show "nat i0 < nat e" using i0 i0e by simp
      show "nat e \<le> length items" using Cons.prems(3) by simp
      show "\<forall>p. nat i0 \<le> p \<and> p < nat e \<longrightarrow> items ! p = None"
      proof (intro allI impI)
        fix p assume "nat i0 \<le> p \<and> p < nat e"
        then have "b + cround pos \<le> int p \<and> int p < e" using i0 by (auto simp: i0_def)
        with empty show "items ! p = None" by blast
      qed
    qed
    with r(5) e1 show "contents (take (nat e) items') = contents (take (nat e) items) @ (x # xs)"
      by simp
  qed
  from res len placed untouched cont show ?case by blast
qed

text \<open>
  The index the specification names for item \<open>j\<close> of \<open>n\<close> in the window \<open>[b, e)\<close>:
  \<open>begin + round (j * (k / n))\<close> with \<open>k = e - b\<close>.
\<close>

definition target_index :: "int \<Rightarrow> int \<Rightarrow> nat \<Rightarrow> nat \<Rightarrow> int" where
  "target_index b e n j = b + cround (of_nat j * ((of_int (e - b) :: rat) / of_nat n))"

lemma target_index_range:
  assumes "1 \<le> n" "int n \<le> e - b" "j < n"
  shows "b \<le> target_index b e n j" "target_index b e n j < e"
proof -
  define s :: rat where "s = of_int (e - b) / of_nat n"
  have ti: "target_index b e n j = b + cround (of_nat j * s)"
    by (simp only: target_index_def s_def)
  have n0: "(0::rat) < of_nat n" using assms(1) by simp
  have "rat_of_nat n \<le> of_int (e - b)"
    using assms(2) by (metis of_int_le_iff of_int_of_nat_eq)
  then have s1: "1 \<le> s" using n0 unfolding s_def
    by (simp only: le_divide_eq_1_pos)
  have nonneg: "0 \<le> of_nat j * s" using s1 by simp
  show "b \<le> target_index b e n j"
    using cround_ge0 [OF nonneg] unfolding ti by simp
  have "of_nat (Suc j) * s \<le> of_nat n * s"
    using assms(3) s1 by (intro mult_right_mono) (auto simp: Suc_le_eq simp del: of_nat_Suc)
  also have "of_nat n * s = of_int (e - b)" using n0 unfolding s_def by simp
  finally have "of_nat j * s + s \<le> of_int (e - b)" by (simp add: algebra_simps)
  with s1 have "of_nat j * s + 1 / 2 < of_int (e - b)" by simp
  then have "\<lfloor>of_nat j * s + 1 / 2\<rfloor> < e - b" by (simp only: floor_less_iff)
  with nonneg show "target_index b e n j < e"
    unfolding ti by (simp add: cround_nonneg)
qed




lemma rearrange_items_spec:
  assumes "0 \<le> b" "e \<le> int (length items)" "1 \<le> length buffer" "int (length buffer) \<le> e - b"
  shows "\<exists>items'. rearrange_items items b e buffer = Some items' \<and> length items' = length items
     \<and> (\<forall>j<length buffer. items' ! nat (target_index b e (length buffer) j) = Some (buffer ! j))
     \<and> (\<forall>p<length items. (\<forall>j<length buffer. int p \<noteq> target_index b e (length buffer) j)
            \<longrightarrow> items' ! p = items ! p)
     \<and> ((\<forall>p. b \<le> int p \<and> int p < e \<longrightarrow> items ! p = None)
            \<longrightarrow> contents (take (nat e) items') = contents (take (nat e) items) @ buffer)"
proof -
  define n where "n = length buffer"
  define s :: rat where "s = of_int (e - b) / of_nat n"
  have n0: "(0::rat) < of_nat n" using assms(3) by (cases buffer) (auto simp: n_def)
  have "rat_of_nat n \<le> of_int (e - b)"
    using assms(4) unfolding n_def by (metis of_int_le_iff of_int_of_nat_eq)
  then have s1: "1 \<le> s" using n0 unfolding s_def
    by (simp only: le_divide_eq_1_pos)
  have ti: "b + cround (0 + of_nat j * s) = target_index b e n j" for j
    by (simp only: target_index_def s_def add_0)
  have "length buffer - 1 < n" using assms(3) by (cases buffer) (auto simp: n_def)
  then have "target_index b e n (length buffer - 1) < e"
    using assms by (intro target_index_range(2)) (simp_all add: n_def)
  then have last: "buffer \<noteq> [] \<longrightarrow> b + cround (0 + of_nat (length buffer - 1) * s) < e"
    unfolding ti by simp
  from rearrange_loop_spec [OF s1 assms(1) assms(2) _ last]
  obtain items' where r: "rearrange_loop items b s 0 buffer = Some items'"
    "length items' = length items"
    "\<forall>j<length buffer. items' ! nat (b + cround (0 + of_nat j * s)) = Some (buffer ! j)"
    "\<forall>p<length items. (\<forall>j<length buffer. int p \<noteq> b + cround (0 + of_nat j * s))
            \<longrightarrow> items' ! p = items ! p"
    "(\<forall>p. b + cround 0 \<le> int p \<and> int p < e \<longrightarrow> items ! p = None)
            \<longrightarrow> contents (take (nat e) items') = contents (take (nat e) items) @ buffer"
    by (metis order_refl)
  have c0: "cround 0 = 0" by (simp add: cround_def floor_eq_iff)
  have "rearrange_items items b e buffer = Some items'"
    using r(1) by (simp add: rearrange_items_def s_def n_def)
  with r(2-5) show ?thesis unfolding ti c0 n_def by auto
qed




section \<open>Windows, counting and gathering\<close>

text \<open>The slots of the window \<open>[b, e)\<close>.\<close>

definition window :: "'a pma \<Rightarrow> int \<Rightarrow> int \<Rightarrow> 'a pma" where
  "window items b e = take (nat (e - b)) (drop (nat b) items)"

lemma length_filter_contents: "length (filter (\<lambda>x. x \<noteq> None) xs) = length (contents xs)"
  by (induction xs) (auto split: option.splits)

lemma length_filter_contents': "length (filter (\<lambda>x. \<exists>y. x = Some y) xs) = length (contents xs)"
  by (induction xs) (auto split: option.splits)

lemma count_items_window:
  "0 \<le> b \<Longrightarrow> b \<le> e \<Longrightarrow> e \<le> int (length items) \<Longrightarrow>
   count_items items b e = Some (int (length (contents (window items b e))))"
  by (simp add: count_items_def window_def length_filter_contents')

lemma count_items_Some:
  "count_items items b e = Some n \<Longrightarrow>
   0 \<le> b \<and> b \<le> e \<and> e \<le> int (length items) \<and> n = int (length (contents (window items b e)))"
  by (auto simp: count_items_def window_def length_filter_contents' split: if_splits)

lemma length_window: "0 \<le> b \<Longrightarrow> b \<le> e \<Longrightarrow> e \<le> int (length items) \<Longrightarrow>
   length (window items b e) = nat (e - b)"
  by (auto simp: window_def)

lemma window_split:
  assumes "0 \<le> b" "b \<le> e" "e \<le> int (length items)"
  shows "items = take (nat b) items @ window items b e @ drop (nat e) items"
proof -
  have "drop (nat b) items = take (nat (e - b)) (drop (nat b) items) @ drop (nat (e - b)) (drop (nat b) items)"
    by (rule append_take_drop_id [symmetric])
  moreover have "nat (e - b) + nat b = nat e" using assms by simp
  ultimately have "drop (nat b) items = window items b e @ drop (nat e) items"
    by (simp add: window_def)
  then show ?thesis by (metis append_take_drop_id)
qed

lemma window_append:
  assumes "0 \<le> b" "b \<le> m" "m \<le> e" "e \<le> int (length items)"
  shows "window items b e = window items b m @ window items m e"
proof -
  have 1: "nat (e - b) = nat (m - b) + nat (e - m)" using assms by simp
  have 2: "nat (m - b) + nat b = nat m" using assms by simp
  show ?thesis
    unfolding window_def 1 by (simp add: take_add 2)
qed

lemma contents_length_le: "length (contents xs) \<le> length xs"
  by (induction xs) (auto split: option.splits)

lemma get_items_loop_spec:
  "0 \<le> i \<Longrightarrow> i \<le> e \<Longrightarrow> e \<le> int (length items) \<Longrightarrow>
   get_items_loop items i e buffer =
     Some (buffer @ contents (window items i e),
           take (nat i) items @ replicate (nat (e - i)) None @ drop (nat e) items)"
proof (induction items i e buffer rule: get_items_loop.induct)
  case (1 items i e buffer)
  show ?case
  proof (cases "i < e")
    case False
    with "1.prems" have "i = e" by simp
    then show ?thesis
      by (subst get_items_loop.simps) (simp add: window_def)
  next
    case True
    then have ilen: "i < int (length items)" using "1.prems" by simp
    have sl: "slot items i = Some (items ! nat i)" using "1.prems" ilen by simp
    have w: "window items i e = items ! nat i # window items (i + 1) e"
    proof -
      have "drop (nat i) items = items ! nat i # drop (Suc (nat i)) items"
        using ilen "1.prems" by (simp add: Cons_nth_drop_Suc)
      moreover have "nat (e - i) = Suc (nat (e - (i + 1)))" using True by simp
      moreover have "Suc (nat i) = nat (i + 1)" using "1.prems" by simp
      ultimately show ?thesis by (simp add: window_def)
    qed
    have rep: "replicate (nat (e - i)) None = None # replicate (nat (e - (i + 1))) (None :: 'a option)"
    proof -
      have "nat (e - i) = Suc (nat (e - (i + 1)))" using True by simp
      then show ?thesis by simp
    qed
    have tk: "take (nat (i + 1)) xs = take (nat i) xs @ [xs ! nat i]"
      if "length xs = length items" for xs :: "'a pma"
    proof -
      have "nat (i + 1) = Suc (nat i)" using "1.prems" by simp
      then show ?thesis using that ilen "1.prems" by (simp add: take_Suc_conv_app_nth)
    qed
    show ?thesis
    proof (cases "items ! nat i")
      case None
      have "get_items_loop items i e buffer = get_items_loop items (i + 1) e buffer"
        using True sl None by (subst get_items_loop.simps) simp
      also have "\<dots> = Some (buffer @ contents (window items (i + 1) e),
           take (nat (i + 1)) items @ replicate (nat (e - (i + 1))) None @ drop (nat e) items)"
        using "1.IH"(1) [OF True sl None] "1.prems" True by simp
      finally show ?thesis
        using None by (simp add: w rep tk)
    next
      case (Some v)
      define items1 where "items1 = items[nat i := None]"
      have pt: "put items i None = Some items1"
        using "1.prems" ilen by (simp add: items1_def)
      have "get_items_loop items i e buffer = get_items_loop items1 (i + 1) e (buffer @ [v])"
        using True sl Some pt by (subst get_items_loop.simps) simp
      also have "\<dots> = Some ((buffer @ [v]) @ contents (window items1 (i + 1) e),
           take (nat (i + 1)) items1 @ replicate (nat (e - (i + 1))) None @ drop (nat e) items1)"
        using "1.IH"(2) [OF True sl Some pt] "1.prems" True
        by (simp add: items1_def)
      finally have eq: "get_items_loop items i e buffer =
          Some ((buffer @ [v]) @ contents (window items1 (i + 1) e),
           take (nat (i + 1)) items1 @ replicate (nat (e - (i + 1))) None @ drop (nat e) items1)" .
      have w1: "window items1 (i + 1) e = window items (i + 1) e"
        using "1.prems" by (simp add: window_def items1_def nat_add_distrib)
      have d1: "drop (nat e) items1 = drop (nat e) items"
        using True "1.prems" by (simp add: items1_def)
      have t1: "take (nat (i + 1)) items1 = take (nat i) items @ [None]"
        using tk [of items1] ilen "1.prems" by (simp add: items1_def)
      show ?thesis
        unfolding eq w1 d1 t1 using Some by (simp add: w rep)
    qed
  qed
qed

lemma get_items_spec:
  "0 \<le> b \<Longrightarrow> b \<le> e \<Longrightarrow> e \<le> int (length items) \<Longrightarrow>
   get_items items b e =
     Some (contents (window items b e),
           take (nat b) items @ replicate (nat (e - b)) None @ drop (nat e) items)"
  unfolding get_items_def by (simp add: get_items_loop_spec)

section \<open>The density manager keeps shape and contents\<close>

text \<open>
  The capacity shape: \<open>c\<close> positive and the capacity \<open>c * 2 ^ h\<close> with \<open>h \<ge> 1\<close>.
\<close>

definition shape :: "nat \<Rightarrow> 'a pma \<Rightarrow> nat \<Rightarrow> bool" where
  "shape c items h \<longleftrightarrow> 0 < c \<and> 1 \<le> h \<and> length items = c * 2 ^ h"

lemma ilog2_power: "ilog2 (2 ^ h) = h"
proof (induction h)
  case 0
  show ?case by (subst ilog2.simps) simp
next
  case (Suc h)
  have "(2::nat) ^ Suc h \<ge> 2" by simp
  then have "ilog2 (2 ^ Suc h) = Suc (ilog2 (2 ^ Suc h div 2))"
    by (subst ilog2.simps) simp
  with Suc show ?case by simp
qed

lemma tree_height_shape: "shape c items h \<Longrightarrow> tree_height c items = Some (int h)"
  by (simp add: shape_def tree_height_def ilog2_power)

lemma get_thresholds_shape:
  "shape c items h \<Longrightarrow> get_thresholds c items d =
     Some (1 / 2 - 1 / 4 * (of_int d / of_nat h), 3 / 4 + 1 / 4 * (of_int d / of_nat h))"
  by (simp add: get_thresholds_def tree_height_shape) (simp add: shape_def)

lemma shape_nonempty: "shape c items h \<Longrightarrow> items \<noteq> []"
  by (auto simp: shape_def)

lemma shape_empty_pma: "0 < c \<Longrightarrow> shape c (empty_pma c) 1"
  by (simp add: shape_def empty_pma_def)

lemma rearrange_items_Nil [simp]: "rearrange_items items b e [] = Some items"
  by (simp add: rearrange_items_def)

lemma rearrange_items_contents:
  assumes "0 \<le> b" "e \<le> int (length items)" "int (length buffer) \<le> e - b"
    and empty: "\<forall>p. b \<le> int p \<and> int p < e \<longrightarrow> items ! p = None"
  shows "\<exists>items'. rearrange_items items b e buffer = Some items' \<and> length items' = length items
     \<and> contents items' = contents (take (nat b) items) @ buffer @ contents (drop (nat e) items)"
proof (cases "buffer = []")
  case True
  have be: "b \<le> e" using assms(3) by simp
  have "contents (window items b e) = []"
  proof (rule contents_all_None, rule ballI)
    fix z assume "z \<in> set (window items b e)"
    then obtain q where q: "q < nat (e - b)" "q < length items - nat b" "z = items ! (nat b + q)"
      by (auto simp: window_def in_set_conv_nth)
    have "b \<le> int (nat b + q) \<and> int (nat b + q) < e" using q(1) assms(1) by auto
    with empty [rule_format, of "nat b + q"] q(3) show "z = None" by simp
  qed
  moreover have "contents items = contents (take (nat b) items) @ contents (window items b e)
       @ contents (drop (nat e) items)"
    using window_split [OF assms(1) be assms(2)] by (metis contents_append)
  ultimately show ?thesis using True by simp
next
  case False
  then have n1: "1 \<le> length buffer" by (cases buffer) auto
  have be: "b \<le> e" using assms(3) by simp
  from rearrange_items_spec [OF assms(1,2) n1 assms(3)]
  obtain items' where r: "rearrange_items items b e buffer = Some items'"
    "length items' = length items"
    "\<forall>p<length items. (\<forall>j<length buffer. int p \<noteq> target_index b e (length buffer) j)
            \<longrightarrow> items' ! p = items ! p"
    "(\<forall>p. b \<le> int p \<and> int p < e \<longrightarrow> items ! p = None)
            \<longrightarrow> contents (take (nat e) items') = contents (take (nat e) items) @ buffer"
    by blast
  have dr: "drop (nat e) items' = drop (nat e) items"
  proof (rule nth_equalityI)
    show "length (drop (nat e) items') = length (drop (nat e) items)" using r(2) by simp
    fix i assume i: "i < length (drop (nat e) items')"
    have "\<forall>j<length buffer. int (nat e + i) \<noteq> target_index b e (length buffer) j"
    proof (intro allI impI)
      fix j assume "j < length buffer"
      from target_index_range(2) [OF n1 assms(3) this]
      show "int (nat e + i) \<noteq> target_index b e (length buffer) j" by linarith
    qed
    moreover have "nat e + i < length items" using i r(2) by simp
    ultimately have "items' ! (nat e + i) = items ! (nat e + i)" using r(3) by blast
    then show "drop (nat e) items' ! i = drop (nat e) items ! i"
      using i r(2) by simp
  qed
  have tk: "contents (take (nat e) items) = contents (take (nat b) items)"
  proof -
    have "take (nat e) items = take (nat b) items @ window items b e"
    proof -
      have "nat e = nat b + nat (e - b)" using assms(1) be by simp
      then show ?thesis by (simp add: take_add window_def)
    qed
    moreover have "contents (window items b e) = []"
    proof (rule contents_all_None, rule ballI)
      fix z assume "z \<in> set (window items b e)"
      then obtain q where q: "q < nat (e - b)" "q < length items - nat b" "z = items ! (nat b + q)"
        by (auto simp: window_def in_set_conv_nth)
      have "b \<le> int (nat b + q) \<and> int (nat b + q) < e" using q(1) assms(1) by auto
      with empty [rule_format, of "nat b + q"] q(3) show "z = None" by simp
    qed
    ultimately show ?thesis by simp
  qed
  have "contents items' = contents (take (nat e) items') @ contents (drop (nat e) items')"
    by (metis append_take_drop_id contents_append)
  also have "\<dots> = contents (take (nat b) items) @ buffer @ contents (drop (nat e) items)"
    using r(4) empty dr tk by simp
  finally show ?thesis using r(1,2) by blast
qed

text \<open>Gathering a window and redistributing it keeps the occupied values and their order.\<close>

lemma gather_rearrange:
  assumes "0 \<le> b" "b \<le> e" "e \<le> int (length items)"
  shows "\<exists>items'. (case get_items items b e of None \<Rightarrow> None
                    | Some (buffer, items1) \<Rightarrow> rearrange_items items1 b e buffer) = Some items'
     \<and> length items' = length items \<and> contents items' = contents items"
proof -
  define items1 where "items1 = take (nat b) items @ replicate (nat (e - b)) None @ drop (nat e) items"
  define buffer where "buffer = contents (window items b e)"
  have g: "get_items items b e = Some (buffer, items1)"
    using get_items_spec [OF assms] by (simp add: items1_def buffer_def)
  have len1: "length items1 = length items" using assms by (simp add: items1_def)
  have lb: "length (take (nat b) items) = nat b" using assms by simp
  have empty: "\<forall>p. b \<le> int p \<and> int p < e \<longrightarrow> items1 ! p = None"
  proof (intro allI impI)
    fix p assume p: "b \<le> int p \<and> int p < e"
    then have "nat b \<le> p" "p - nat b < nat (e - b)" using assms(1) by auto
    then show "items1 ! p = None"
      unfolding items1_def using lb by (simp add: nth_append)
  qed
  have "int (length buffer) \<le> e - b"
    unfolding buffer_def using contents_length_le [of "window items b e"] length_window [OF assms]
      assms(2) by linarith
  from rearrange_items_contents [OF assms(1) _ this empty] assms(3) len1
  obtain items' where r: "rearrange_items items1 b e buffer = Some items'"
    "length items' = length items1"
    "contents items' = contents (take (nat b) items1) @ buffer @ contents (drop (nat e) items1)"
    by auto
  have t1: "take (nat b) items1 = take (nat b) items"
    unfolding items1_def using lb by simp
  have d1: "drop (nat e) items1 = drop (nat e) items"
  proof -
    have "nat e = length (take (nat b) items @ replicate (nat (e - b)) None)"
      using assms by simp
    then show ?thesis unfolding items1_def
      by (metis append.assoc append_eq_conv_conj)
  qed
  have "contents items = contents (take (nat b) items) @ buffer @ contents (drop (nat e) items)"
    unfolding buffer_def using window_split [OF assms] by (metis contents_append)
  with r t1 d1 g len1 show ?thesis by simp
qed

lemma sdiv_nonneg: "0 \<le> a \<Longrightarrow> 0 < b \<Longrightarrow> (a::int) sdiv b = a div b"
  by (cases "a = 0") (simp_all add: signed_divide_int_def)

lemma smod_nonneg: "0 \<le> a \<Longrightarrow> 0 < b \<Longrightarrow> (a::int) smod b = a mod b"
  by (cases "a = 0") (simp_all add: signed_modulo_int_def)

lemma root_rebuild:
  assumes "length buffer \<le> n"
  shows "\<exists>items'. (if buffer \<noteq> [] then rearrange_items (replicate n None) 0 (int n) buffer
                    else Some (replicate n None)) = Some items'
     \<and> length items' = n \<and> contents items' = buffer"
proof -
  have "\<exists>items'. rearrange_items (replicate n None) 0 (int n) buffer = Some items'
     \<and> length items' = length (replicate n (None :: 'a option))
     \<and> contents items' = contents (take (nat 0) (replicate n None)) @ buffer
          @ contents (drop (nat (int n)) (replicate n None))"
    using assms by (intro rearrange_items_contents) auto
  then obtain items' where "rearrange_items (replicate n None) 0 (int n) buffer = Some items'"
    "length items' = n" "contents items' = buffer"
    by auto
  then show ?thesis by (cases "buffer = []") auto
qed

lemma contents_window_bound:
  assumes "0 \<le> b" "b \<le> e" "e \<le> int (length items)"
  shows "int (length (contents items)) \<le> int (length (contents (window items b e))) + int (length items) - (e - b)"
proof -
  have "contents items = contents (take (nat b) items) @ contents (window items b e)
       @ contents (drop (nat e) items)"
    using window_split [OF assms] by (metis contents_append)
  then have "length (contents items) = length (contents (take (nat b) items))
      + length (contents (window items b e)) + length (contents (drop (nat e) items))"
    by simp
  moreover have "length (contents (take (nat b) items)) \<le> nat b"
    using contents_length_le [of "take (nat b) items"] by simp
  moreover have "length (contents (drop (nat e) items)) \<le> length items - nat e"
    using contents_length_le [of "drop (nat e) items"] by simp
  ultimately show ?thesis using assms by linarith
qed

text \<open>
  The geometry of one \<^verbatim>\<open>scan\<close> call on window number \<open>m\<close> of width \<open>c * 2 ^ k\<close>: the
  sibling and the parent window.
\<close>

lemma scan_geometry:
  assumes sh: "shape c items h" and k: "k < h"
    and b: "b = int (m * (c * 2 ^ k))" and e: "e = b + int (c * 2 ^ k)"
    and le: "e \<le> int (length items)"
  defines "w \<equiv> int (c * 2 ^ k)"
  defines "sb \<equiv> (if even m then e else b - w)"
  defines "pb \<equiv> (if even m then b else b - w)"
  shows "0 < w" "e - b = w" "(b sdiv w) smod 2 = 0 \<longleftrightarrow> even m"
    "0 \<le> sb" "sb + w \<le> int (length items)"
    "0 \<le> pb" "pb + 2 * w \<le> int (length items)"
    "pb = int ((m div 2) * (c * 2 ^ Suc k))"
    "2 * w \<le> int (length items)"
    "int (length (contents (window items pb (pb + 2 * w)))) =
       int (length (contents (window items b e))) + int (length (contents (window items sb (sb + w))))"
proof -
  from sh have c: "0 < c" and len: "length items = c * 2 ^ h" by (auto simp: shape_def)
  show w0: "0 < w" using c by (simp add: w_def)
  show ew: "e - b = w" using e by (simp add: w_def)
  have bw: "b = int m * w" using b by (simp add: w_def)
  have "b sdiv w = b div w" using w0 bw by (intro sdiv_nonneg) auto
  also have "\<dots> = int m" using w0 bw by simp
  finally have "b sdiv w = int m" .
  then show "(b sdiv w) smod 2 = 0 \<longleftrightarrow> even m"
    by (simp add: smod_nonneg even_iff_mod_2_eq_zero) presburger
  obtain j where j: "h = k + Suc j" using k by (metis less_iff_Suc_add add_Suc_right)
  have L: "int (length items) = w * 2 * 2 ^ j"
    by (simp add: len j w_def power_add)
  have "(int m + 1) * w \<le> w * 2 * 2 ^ j" using le L bw e by (simp add: w_def algebra_simps)
  then have "(int m + 1) * w \<le> (2 * 2 ^ j) * w" by (simp add: algebra_simps)
  then have m1: "int m + 1 \<le> 2 * 2 ^ j" using w0 by (simp only: mult_le_cancel_right)
  show "2 * w \<le> int (length items)"
  proof -
    have "(1::int) \<le> 2 ^ j" by simp
    then have "w * 2 * 1 \<le> w * 2 * 2 ^ j" using w0 by (intro mult_left_mono) auto
    then show ?thesis unfolding L by simp
  qed
  show "pb = int ((m div 2) * (c * 2 ^ Suc k))"
  proof (cases "even m")
    case True
    then obtain q where "m = 2 * q" by (auto elim: evenE)
    then show ?thesis using True bw by (simp add: pb_def w_def)
  next
    case False
    then obtain q where "m = 2 * q + 1" by (auto elim: oddE)
    then show ?thesis using False bw by (simp add: pb_def w_def algebra_simps)
  qed
  then show "0 \<le> pb" by simp
  have m2: "int m + 2 \<le> 2 * 2 ^ j" if "even m"
  proof -
    from that obtain q where q: "m = 2 * q" by (auto elim: evenE)
    have "int m + 1 \<noteq> 2 * 2 ^ j"
    proof
      assume "int m + 1 = 2 * 2 ^ j"
      then have "2 * int q + 1 = 2 * 2 ^ j" using q by simp
      then show False by presburger
    qed
    with m1 show ?thesis by simp
  qed
  show "0 \<le> sb"
  proof (cases "even m")
    case True
    then show ?thesis using bw w0 e by (simp add: sb_def w_def)
  next
    case False
    then have "1 \<le> int m" by (cases m) auto
    then have "1 * w \<le> int m * w" using w0 by (intro mult_right_mono) auto
    then show ?thesis using False bw by (simp add: sb_def)
  qed
  show "sb + w \<le> int (length items)"
  proof (cases "even m")
    case True
    have "(int m + 2) * w \<le> (2 * 2 ^ j) * w"
      using m2 [OF True] w0 by (intro mult_right_mono) auto
    then show ?thesis using True bw e unfolding L by (simp add: sb_def w_def algebra_simps)
  next
    case False
    then show ?thesis using le e w0 by (simp add: sb_def w_def)
  qed
  show "pb + 2 * w \<le> int (length items)"
  proof (cases "even m")
    case True
    have "(int m + 2) * w \<le> (2 * 2 ^ j) * w"
      using m2 [OF True] w0 by (intro mult_right_mono) auto
    then show ?thesis using True bw unfolding L by (simp add: pb_def algebra_simps)
  next
    case False
    then show ?thesis using le e by (simp add: pb_def w_def)
  qed
  show "int (length (contents (window items pb (pb + 2 * w)))) =
       int (length (contents (window items b e))) + int (length (contents (window items sb (sb + w))))"
  proof (cases "even m")
    case True
    have "0 \<le> b" using b by simp
    moreover have "e + w \<le> int (length items)"
      using \<open>sb + w \<le> int (length items)\<close> True by (simp add: sb_def)
    ultimately have W: "window items b (e + w) = window items b e @ window items e (e + w)"
      using w0 e by (intro window_append) (auto simp: w_def)
    have eqs: "pb = b" "sb = e" using True by (simp_all add: pb_def sb_def)
    have "b + 2 * w = e + w" using ew by simp
    then show ?thesis unfolding eqs by (simp only: W contents_append length_append of_nat_add)
  next
    case False
    have "0 \<le> b - w" using \<open>0 \<le> sb\<close> False by (simp add: sb_def)
    then have W: "window items (b - w) e = window items (b - w) b @ window items b e"
      using w0 e le by (intro window_append) (auto simp: w_def)
    have eqs: "pb = b - w" "sb = b - w" using False by (simp_all add: pb_def sb_def)
    have "b - w + 2 * w = e" "b - w + w = b" using ew by simp_all
    then show ?thesis unfolding eqs by (simp only: W contents_append length_append of_nat_add add.commute)
  qed
qed

text \<open>One unfolding of \<^verbatim>\<open>scan\<close> on a well-placed window.\<close>

lemma scan_unfold:
  fixes depth acc :: int
  assumes sh: "shape c items h" and k: "k < h"
    and b: "b = int (m * (c * 2 ^ k))" and e: "e = b + int (c * 2 ^ k)"
    and le: "e \<le> int (length items)"
  defines "w \<equiv> int (c * 2 ^ k)"
  defines "sb \<equiv> (if even m then e else b - w)"
  defines "pb \<equiv> (if even m then b else b - w)"
  defines "sc \<equiv> int (length (contents (window items sb (sb + w))))"
  defines "lower \<equiv> (1 / 2 - 1 / 4 * (of_int depth / of_nat h) :: rat)"
  defines "upper \<equiv> (3 / 4 + 1 / 4 * (of_int depth / of_nat h) :: rat)"
  defines "density \<equiv> (of_int (acc + sc) :: rat) / of_int (w * 2)"
  shows "scan c items b e acc depth =
     (if lower \<le> density \<and> density \<le> upper then
        (case get_items items pb (pb + 2 * w) of
           None \<Rightarrow> None
         | Some (buffer, items1) \<Rightarrow> rearrange_items items1 pb (pb + 2 * w) buffer)
      else if depth = 0 then
        (case get_items items 0 (int (length items)) of
           None \<Rightarrow> None
         | Some (buffer, items1) \<Rightarrow>
             let items2 =
                   (if density > upper then resize items1 (length items1 * 2)
                    else if density < lower \<and> length items1 > c * 2
                      then resize items1 (length items1 div 2)
                    else items1)
             in if buffer \<noteq> []
                then rearrange_items items2 0 (int (length items2)) buffer
                else Some items2)
      else scan c items pb (pb + 2 * w) (acc + sc) (depth - 1))"
proof -
  note g = scan_geometry [OF sh k b e le, folded w_def, folded sb_def pb_def]
  have cnt: "count_items items sb (sb + w) = Some sc"
    unfolding sc_def using g(1,4,5) by (intro count_items_window) auto
  have th: "get_thresholds c items depth = Some (lower, upper)"
    using get_thresholds_shape [OF sh] by (simp add: lower_def upper_def)
  have w0: "e - b \<noteq> 0" using g(1,2) by simp
  have pe: "(if even m then sb + w else e) = pb + 2 * w"
    using g(2) by (auto simp: sb_def pb_def)
  have wne: "w \<noteq> 0" using g(1) by simp
  have pbeq: "(if even m then b else sb) = pb" by (simp add: pb_def sb_def)
  show ?thesis
    apply (subst scan.simps)
    apply (simp only: Let_def w0 if_False g(2) g(3))
    apply (simp only: sb_def [symmetric] pb_def [symmetric] cnt option.case th prod.case
        density_def [symmetric] pe)
    apply (simp only: wne if_False pbeq Let_def)
    done
qed

lemma threshold_bounds:
  assumes "0 \<le> d" "d \<le> int h" "1 \<le> h"
  shows "(1 / 2 - 1 / 4 * (of_int d / of_nat h) :: rat) \<le> 1 / 2"
    "(3 / 4 + 1 / 4 * (of_int d / of_nat h) :: rat) \<le> 1"
proof -
  have h0: "(0::rat) < of_nat h" using assms(3) by simp
  have "0 \<le> (of_int d :: rat) / of_nat h" using assms(1) h0 by simp
  then show "(1 / 2 - 1 / 4 * (of_int d / of_nat h) :: rat) \<le> 1 / 2" by simp
  have "(of_int d :: rat) \<le> of_nat h" using assms(2) by (metis of_int_le_iff of_int_of_nat_eq)
  then have "(of_int d :: rat) / of_nat h \<le> 1" using h0 by (simp only: divide_le_eq_1_pos)
  then show "(3 / 4 + 1 / 4 * (of_int d / of_nat h) :: rat) \<le> 1" by simp
qed

lemma scan_spec:
  assumes sh: "shape c items h"
  shows "k < h \<Longrightarrow> b = int (m * (c * 2 ^ k)) \<Longrightarrow> e = b + int (c * 2 ^ k) \<Longrightarrow>
     e \<le> int (length items) \<Longrightarrow> depth = int h - 1 - int k \<Longrightarrow>
     acc = int (length (contents (window items b e))) + extra \<Longrightarrow> 0 \<le> extra \<Longrightarrow> extra \<le> 1 \<Longrightarrow>
     \<exists>items' h'. scan c items b e acc depth = Some items' \<and> shape c items' h' \<and>
        contents items' = contents items \<and>
        int (length (contents items')) + extra \<le> int (length items')"
proof (induction "h - 1 - k" arbitrary: k m b e acc depth rule: less_induct)
  case less
  note k = less.prems(1) and b = less.prems(2) and e = less.prems(3) and le = less.prems(4)
    and depth = less.prems(5) and acc = less.prems(6) and ex = less.prems(7,8)
  define w where "w = int (c * 2 ^ k)"
  define sb where "sb = (if even m then e else b - w)"
  define pb where "pb = (if even m then b else b - w)"
  define sc where "sc = int (length (contents (window items sb (sb + w))))"
  define lower where "lower = (1 / 2 - 1 / 4 * (of_int depth / of_nat h) :: rat)"
  define upper where "upper = (3 / 4 + 1 / 4 * (of_int depth / of_nat h) :: rat)"
  define density where "density = (of_int (acc + sc) :: rat) / of_int (w * 2)"
  note g = scan_geometry [OF sh k b e le, folded w_def, folded sb_def pb_def]
  note unf = scan_unfold [OF sh k b e le, of acc depth, folded w_def, folded sb_def pb_def,
      folded sc_def, folded lower_def upper_def, folded density_def]
  from sh have c: "0 < c" and h1: "1 \<le> h" and len: "length items = c * 2 ^ h"
    by (auto simp: shape_def)
  have d0: "0 \<le> depth" "depth \<le> int h" using depth k by auto
  have lo: "lower \<le> 1 / 2" and up: "upper \<le> 1"
    unfolding lower_def upper_def using threshold_bounds [OF d0 h1] by auto
  define cp where "cp = int (length (contents (window items pb (pb + 2 * w))))"
  have accsc: "acc + sc = cp + extra"
    unfolding cp_def g(10) sc_def acc by simp
  have dens: "density = of_int (cp + extra) / of_int (2 * w)"
    unfolding density_def accsc by (simp add: mult.commute)
  have w2: "(0::rat) < of_int (2 * w)" using g(1) by simp
  have pbe: "pb \<le> pb + 2 * w" using g(1) by simp
  show ?case
  proof (cases "lower \<le> density \<and> density \<le> upper")
    case True
    from gather_rearrange [OF g(6) pbe g(7)]
    obtain items' where r: "(case get_items items pb (pb + 2 * w) of None \<Rightarrow> None
            | Some (buffer, items1) \<Rightarrow> rearrange_items items1 pb (pb + 2 * w) buffer) = Some items'"
      "length items' = length items" "contents items' = contents items"
      by blast
    have res: "scan c items b e acc depth = Some items'"
      unfolding unf using True r(1) by simp
    have "density \<le> 1" using True up by simp
    then have "(of_int (cp + extra) :: rat) \<le> of_int (2 * w)"
      unfolding dens using w2 by (simp only: divide_le_eq_1_pos)
    then have "cp + extra \<le> 2 * w" by (simp only: of_int_le_iff)
    moreover have "int (length (contents items)) \<le> cp + int (length items) - (pb + 2 * w - pb)"
      unfolding cp_def using g(6) pbe g(7) by (rule contents_window_bound)
    ultimately have "int (length (contents items)) + extra \<le> int (length items)" by simp
    with res r(2,3) sh show ?thesis
      by (intro exI [of _ items'] exI [of _ h]) (simp add: shape_def)
  next
    case nw: False
    show ?thesis
    proof (cases "depth = 0")
      case True
      with depth have kh: "h = Suc k" by simp
      have L: "int (length items) = 2 * w" by (simp add: len kh w_def)
      have pb0: "pb = 0" using g(6,7) g(1) L by simp
      have cp: "cp = int (length (contents items))"
        unfolding cp_def pb0 using L by (simp add: window_def)
      define buffer where "buffer = contents items"
      define n where "n = length items"
      have gi: "get_items items 0 (int (length items)) = Some (buffer, replicate n None)"
        using get_items_spec [of 0 "int (length items)" items]
        by (simp add: buffer_def n_def window_def)
      define n' where "n' = (if density > upper then n * 2
           else if density < lower \<and> n > c * 2 then n div 2 else n)"
      have items2: "(if upper < density then resize (replicate n None) (n * 2)
                    else if density < lower \<and> c * 2 < n
                      then resize (replicate n None) (n div 2)
                    else replicate n None) = replicate n' (None :: 'a option)"
        by (auto simp: n'_def resize_def replicate_add [symmetric] min_def)
      have res: "scan c items b e acc depth =
           (if buffer \<noteq> [] then rearrange_items (replicate n' None) 0 (int n') buffer
            else Some (replicate n' None))"
      proof -
        have nw': "(lower \<le> density \<and> density \<le> upper) = False" using nw by simp
        have d0': "(depth = 0) = True" using True by simp
        show ?thesis
          unfolding unf nw' d0'
          by (simp only: if_False if_True gi option.case prod.case Let_def length_replicate items2)
      qed
      have dens': "density = of_int (int (length buffer) + extra) / of_int (int n)"
        unfolding dens cp buffer_def n_def L by simp
      have nn: "(0::rat) < of_int (int n)" using w2 L by (simp add: n_def)
      have bn: "length buffer \<le> n" unfolding buffer_def n_def by (rule contents_length_le)
      have half: "int (length buffer) + extra \<le> int (n div 2)" if "density < lower"
      proof -
        from that lo have "density < 1 / 2" by simp
        then have "(of_int (int (length buffer) + extra) :: rat) * 2 < of_int (int n)"
          unfolding dens' using nn by (simp add: divide_less_eq)
        then have "(of_int ((int (length buffer) + extra) * 2) :: rat) < of_int (int n)" by simp
        then have "(int (length buffer) + extra) * 2 < int n" by (simp only: of_int_less_iff)
        then have "int (length buffer) + extra \<le> int n div 2" by presburger
        then show ?thesis by (simp add: zdiv_int)
      qed
      have dl: "density < lower" if "\<not> density > upper" using nw that by auto
      have room: "int (length buffer) + extra \<le> int n'"
      proof (cases "density > upper")
        case True
        have "1 \<le> n" using L g(1) by (simp add: n_def)
        with True bn ex show ?thesis by (simp add: n'_def)
      next
        case False
        from half [OF dl [OF False]] have "int (length buffer) + extra \<le> int (n div 2)" .
        moreover have "n div 2 \<le> n" by simp
        ultimately show ?thesis using False by (auto simp: n'_def)
      qed
      then have "length buffer \<le> n'" using ex by simp
      from root_rebuild [OF this]
      obtain items' where r: "(if buffer \<noteq> [] then rearrange_items (replicate n' None) 0 (int n') buffer
                    else Some (replicate n' None)) = Some items'"
        "length items' = n'" "contents items' = buffer"
        by blast
      have "\<exists>h'. shape c items' h'"
      proof (cases "density > upper")
        case True
        then have "n' = c * 2 ^ Suc h" by (simp add: n'_def n_def len)
        with r(2) c show ?thesis by (intro exI [of _ "Suc h"]) (simp add: shape_def)
      next
        case False
        show ?thesis
        proof (cases "density < lower \<and> n > c * 2")
          case True
          then have "2 ^ h > (2::nat) ^ 1" using c by (simp add: n_def len)
          then have "1 < h" by (simp only: power_strict_increasing_iff) 
          then obtain h0 where h0: "h = Suc h0" "1 \<le> h0" by (cases h) auto
          have "n' = c * 2 ^ h0" using True False by (simp add: n'_def n_def len h0)
          with r(2) c h0 show ?thesis by (intro exI [of _ h0]) (simp add: shape_def)
        next
          case F2: False
          with False have "n' = n" by (auto simp: n'_def)
          with r(2) sh show ?thesis by (intro exI [of _ h]) (simp add: shape_def n_def)
        qed
      qed
      with res r room show ?thesis by (auto simp: buffer_def)
    next
      case False
      with d0 have dpos: "1 \<le> depth" by simp
      with depth have k1: "Suc k < h" by simp
      have "\<exists>items' h'. scan c items pb (pb + 2 * w) (acc + sc) (depth - 1) = Some items' \<and>
          shape c items' h' \<and> contents items' = contents items \<and>
          int (length (contents items')) + extra \<le> int (length items')"
      proof (rule less.hyps [of "Suc k" _ "m div 2"])
        show "h - 1 - Suc k < h - 1 - k" using k1 by simp
        show "Suc k < h" by (rule k1)
        show "pb = int (m div 2 * (c * 2 ^ Suc k))" by (rule g(8))
        show "pb + 2 * w = pb + int (c * 2 ^ Suc k)" by (simp add: w_def)
        show "pb + 2 * w \<le> int (length items)" by (rule g(7))
        show "depth - 1 = int h - 1 - int (Suc k)" using depth by simp
        show "acc + sc = int (length (contents (window items pb (pb + 2 * w)))) + extra"
          using accsc by (simp add: cp_def)
        show "0 \<le> extra" "extra \<le> 1" using ex by auto
      qed
      moreover have "scan c items b e acc depth = scan c items pb (pb + 2 * w) (acc + sc) (depth - 1)"
        unfolding unf using nw False by auto
      ultimately show ?thesis by simp
    qed
  qed
qed

end
